theory Spec2Isabelle
  imports Main "HOL-Library.AList" "HOL-Library.Multiset"
begin

section \<open>Google Drive synchronisation: the comparison and the copy actions\<close>

text \<open>
  The repository holds two Pipedream actions. \<^verbatim>\<open>compare_folders/entry.js\<close> enumerates two
  Drive folders, compares the two entry lists by path and derives an ordered plan.
  \<^verbatim>\<open>execute_folder_copy/entry.js\<close> replicates a folder skeleton and copies files in
  batches. Both talk to Google Drive through the \<^verbatim>\<open>@pipedream/google_drive\<close> app, which is
  not part of the repository: it is modelled below as an explicit store with a log of the
  calls it received.
\<close>

subsection \<open>Entries and the modification predicate (compare_folders)\<close>

text \<open>
  The \<^verbatim>\<open>fileData\<close> object built by \<^verbatim>\<open>getAllFilesInFolder\<close>. Drive reports \<^verbatim>\<open>size\<close> and
  \<^verbatim>\<open>md5Checksum\<close> as strings and omits them for folders and Google documents, hence the
  options (\<open>None\<close> is JavaScript's \<^verbatim>\<open>undefined\<close>). \<open>e_modifiedTime\<close> holds the time value
  of \<^verbatim>\<open>new Date(file.modifiedTime)\<close> in milliseconds; \<open>None\<close> is the \<^verbatim>\<open>NaN\<close> of a string that
  \<^verbatim>\<open>Date\<close> cannot parse.
\<close>

record entry =
  e_id :: string
  e_name :: string
  e_path :: string
  e_mimeType :: string
  e_size :: "string option"
  e_modifiedTime :: "int option"
  e_md5Checksum :: "string option"
  e_isFolder :: bool

datatype reason = newer_modification_time | different_size | different_content

text \<open>\<^verbatim>\<open>new Date(a) > new Date(b)\<close>: a comparison of numbers, false as soon as one is \<^verbatim>\<open>NaN\<close>.\<close>

fun date_gt :: "int option \<Rightarrow> int option \<Rightarrow> bool" where
  "date_gt (Some a) (Some b) = (a > b)"
| "date_gt _ _ = False"

text \<open>Truthiness of an optional string: \<^verbatim>\<open>undefined\<close> and the empty string are falsy.\<close>

fun truthy :: "string option \<Rightarrow> bool" where
  "truthy None = False"
| "truthy (Some s) = (s \<noteq> [])"

text \<open>
  \<^verbatim>\<open>isFileModified\<close> returns the array of reasons, or \<^verbatim>\<open>false\<close> (here \<open>None\<close>) when the
  array is empty.
\<close>

definition isFileModified :: "entry \<Rightarrow> entry \<Rightarrow> bool \<Rightarrow> reason list option" where
  "isFileModified sourceFile destFile compareContent =
    (let reasons0 = [];
         reasons1 = (if date_gt (e_modifiedTime sourceFile) (e_modifiedTime destFile)
                     then reasons0 @ [newer_modification_time] else reasons0);
         reasons2 = (if e_size sourceFile \<noteq> e_size destFile
                     then reasons1 @ [different_size] else reasons1);
         reasons3 = (if compareContent \<and> truthy (e_md5Checksum sourceFile)
                          \<and> truthy (e_md5Checksum destFile)
                     then (if e_md5Checksum sourceFile \<noteq> e_md5Checksum destFile
                           then reasons2 @ [different_content] else reasons2)
                     else reasons2)
     in if length reasons3 > 0 then Some reasons3 else None)"

text \<open>The reasons carried by a result of \<open>isFileModified\<close>; \<^verbatim>\<open>false\<close> carries none.\<close>

fun reasons_of :: "reason list option \<Rightarrow> reason list" where
  "reasons_of None = []"
| "reasons_of (Some rs) = rs"

subsection \<open>The comparison (compare_folders)\<close>

record modification =
  m_source :: entry
  m_destination :: entry
  m_reason :: "reason list"

record comparison =
  additions :: "entry list"
  modifications :: "modification list"
  deletions :: "entry list"
  unchanged :: "entry list"

text \<open>
  A JavaScript \<^verbatim>\<open>Map\<close> iterates in insertion order, and \<^verbatim>\<open>set\<close> on a key already present
  replaces the value where the key stands: an association list under \<^const>\<open>AList.update\<close>.
\<close>

definition build_map :: "entry list \<Rightarrow> (string \<times> entry) list" where
  "build_map files = foldl (\<lambda>m file. AList.update (e_path file) file m) [] files"

text \<open>The body of the first loop of \<^verbatim>\<open>compareFiles\<close>, over the source map.\<close>

definition classify_source ::
  "(string \<times> entry) list \<Rightarrow> bool \<Rightarrow> comparison \<Rightarrow> string \<times> entry \<Rightarrow> comparison" where
  "classify_source destMap compareContent c kv =
    (case kv of (path, sourceFile) \<Rightarrow>
      (case map_of destMap path of
         None \<Rightarrow> c\<lparr>additions := additions c @ [sourceFile]\<rparr>
       | Some destFile \<Rightarrow>
          (case isFileModified sourceFile destFile compareContent of
             Some isModified \<Rightarrow>
               c\<lparr>modifications := modifications c @
                   [\<lparr>m_source = sourceFile, m_destination = destFile, m_reason = isModified\<rparr>]\<rparr>
           | None \<Rightarrow> c\<lparr>unchanged := unchanged c @ [sourceFile]\<rparr>)))"

text \<open>The body of the second loop, over the destination map.\<close>

definition classify_dest ::
  "(string \<times> entry) list \<Rightarrow> comparison \<Rightarrow> string \<times> entry \<Rightarrow> comparison" where
  "classify_dest sourceMap c kv =
    (case kv of (path, destFile) \<Rightarrow>
      (if map_of sourceMap path = None then c\<lparr>deletions := deletions c @ [destFile]\<rparr> else c))"

definition compareFiles :: "entry list \<Rightarrow> entry list \<Rightarrow> bool \<Rightarrow> comparison" where
  "compareFiles sourceFiles destFiles compareContent =
    (let sourceMap = build_map sourceFiles;
         destMap = build_map destFiles;
         c0 = \<lparr>additions = [], modifications = [], deletions = [], unchanged = []\<rparr>;
         c1 = foldl (classify_source destMap compareContent) c0 sourceMap
     in foldl (classify_dest sourceMap) c1 destMap)"

text \<open>The paths held by the four buckets, bucket after bucket.\<close>

definition bucket_paths :: "comparison \<Rightarrow> string list" where
  "bucket_paths c =
     map e_path (additions c) @ map (e_path \<circ> m_source) (modifications c)
       @ map e_path (deletions c) @ map e_path (unchanged c)"

subsection \<open>The plan (compare_folders)\<close>

text \<open>
  The three shapes of object pushed by \<^verbatim>\<open>generateSyncPlan\<close>; all of them carry a
  \<^verbatim>\<open>priority\<close>.
\<close>

datatype sync_action =
    Create (a_file: entry) (priority: int)
  | Update (sourceFile: entry) (destinationFile: entry) (a_reason: "reason list") (priority: int)
  | Delete (a_file: entry) (priority: int)

text \<open>The array \<^verbatim>\<open>syncActions\<close> as it stands before the sort.\<close>

definition syncActions :: "comparison \<Rightarrow> sync_action list" where
  "syncActions c =
    (let acts0 = [];
         acts1 = foldl (\<lambda>acts file. acts @ [Create file (if e_isFolder file then 1 else 2)])
                   acts0 (additions c);
         acts2 = foldl (\<lambda>acts m. acts @ [Update (m_source m) (m_destination m) (m_reason m)
                                            (if e_isFolder (m_source m) then 1 else 2)])
                   acts1 (modifications c)
     in foldl (\<lambda>acts file. acts @ [Delete file (if e_isFolder file then 3 else 2)])
          acts2 (deletions c))"

text \<open>
  \<^verbatim>\<open>Array.prototype.sort\<close> is stable, and the comparator \<^verbatim>\<open>a.priority - b.priority\<close> orders
  by the priority alone: the stable sort \<^const>\<open>sort_key\<close>.
\<close>

definition generateSyncPlan :: "comparison \<Rightarrow> sync_action list" where
  "generateSyncPlan c = sort_key priority (syncActions c)"

text \<open>The priority of the class of an action, read off its kind and its entry.\<close>

fun priority_rule :: "sync_action \<Rightarrow> int" where
  "priority_rule (Create f p) = (if e_isFolder f then 1 else 2)"
| "priority_rule (Update s d r p) = (if e_isFolder s then 1 else 2)"
| "priority_rule (Delete f p) = (if e_isFolder f then 3 else 2)"

text \<open>
  The last entry of a list that carries a given path: the entry a \<^verbatim>\<open>Map\<close> keyed by path
  retains for it.
\<close>

definition last_with_path :: "entry list \<Rightarrow> string \<Rightarrow> entry option" where
  "last_with_path files p = List.find (\<lambda>f. e_path f = p) (rev files)"

text \<open>
  The three outcomes of the first loop for one pair of the source map, and (with the maps
  exchanged) the test of the second loop.
\<close>

definition is_added :: "(string \<times> entry) list \<Rightarrow> string \<times> entry \<Rightarrow> bool" where
  "is_added dm kv = (map_of dm (fst kv) = None)"

definition is_modified :: "(string \<times> entry) list \<Rightarrow> bool \<Rightarrow> string \<times> entry \<Rightarrow> bool" where
  "is_modified dm cc kv = (\<exists>d. map_of dm (fst kv) = Some d \<and> isFileModified (snd kv) d cc \<noteq> None)"

definition is_unchanged :: "(string \<times> entry) list \<Rightarrow> bool \<Rightarrow> string \<times> entry \<Rightarrow> bool" where
  "is_unchanged dm cc kv = (\<exists>d. map_of dm (fst kv) = Some d \<and> isFileModified (snd kv) d cc = None)"

text \<open>
  A sample comparison: the file \<^verbatim>\<open>X/f\<close> and its folder \<^verbatim>\<open>X\<close>, both additions, the file
  listed first.
\<close>

definition ex_folder :: entry where
  "ex_folder = \<lparr>e_id = ''1'', e_name = ''X'', e_path = ''X'',
     e_mimeType = ''application/vnd.google-apps.folder'', e_size = None,
     e_modifiedTime = Some 0, e_md5Checksum = None, e_isFolder = True\<rparr>"

definition ex_file :: entry where
  "ex_file = \<lparr>e_id = ''2'', e_name = ''f'', e_path = ''X/f'',
     e_mimeType = ''text/plain'', e_size = Some ''10'',
     e_modifiedTime = Some 0, e_md5Checksum = Some ''abc'', e_isFolder = False\<rparr>"

definition ex_comparison :: comparison where
  "ex_comparison = \<lparr>additions = [ex_file, ex_folder], modifications = [], deletions = [],
     unchanged = []\<rparr>"

subsection \<open>The remote store (the Google Drive app, outside the repository)\<close>

text \<open>
  Both actions reach Drive only through \<^verbatim>\<open>this.google_drive\<close>: \<^verbatim>\<open>listFilesInPage\<close>,
  \<^verbatim>\<open>createFolder\<close>, \<^verbatim>\<open>copyFile\<close> and \<^verbatim>\<open>deleteFile\<close>. The store is modelled as the list of
  file resources it holds (\<open>drive\<close>), a counter for the ids it hands out (\<open>nextId\<close>), a
  table of the calls it rejects (\<open>fault n c\<close> is the error message when the call \<open>c\<close>,
  received after \<open>n\<close> earlier calls, fails), the successive readings of the wall clock
  (\<open>clock\<close>, with the number \<open>ticks\<close> of readings taken), and the log of the calls received
  with their answers (\<open>events\<close>, most recent first).
\<close>

record drive_file =
  f_id :: string
  f_name :: string
  f_mimeType :: string
  f_size :: "string option"
  f_modifiedTime :: "int option"
  f_md5Checksum :: "string option"
  f_parents :: "string list"
  f_trashed :: bool

definition folderMime :: string where
  "folderMime = ''application/vnd.google-apps.folder''"

text \<open>
  The search strings the source builds are all conjunctions of at most a parent clause
  (\<^verbatim>\<open>'ID' in parents\<close>), a clause on the MIME type (\<^verbatim>\<open>mimeType = 'FOLDER'\<close> or \<^verbatim>\<open>!=\<close>), a
  disjunction of names, and \<^verbatim>\<open>trashed = false\<close>, which is always there.
\<close>

datatype mime_filter = AnyMime | IsFolder | NotFolder

record query =
  q_parent :: "string option"
  q_mime :: mime_filter
  q_names :: "string list option"

record page =
  p_files :: "drive_file list"
  p_nextPageToken :: "drive_file list option"

datatype call =
    ListFiles query "drive_file list option" nat
  | CreateFolder string string
  | CopyFile string string string
  | DeleteFile string

datatype response = Failed string | Listed page | Made string | Done

type_synonym event = "call \<times> response"

record world =
  drive :: "drive_file list"
  nextId :: nat
  fault :: "nat \<Rightarrow> call \<Rightarrow> string option"
  clock :: "nat \<Rightarrow> int"
  ticks :: nat
  events :: "event list"

text \<open>Decimal numerals, as a template literal prints an integer.\<close>

function string_of_nat :: "nat \<Rightarrow> string" where
  "string_of_nat n =
     (if n < 10 then [''0123456789'' ! n]
      else string_of_nat (n div 10) @ [''0123456789'' ! (n mod 10)])"
  by pat_completeness auto
termination
  by (relation "measure id") auto

declare string_of_nat.simps [simp del]

definition string_of_int :: "int \<Rightarrow> string" where
  "string_of_int i = (if i < 0 then CHR ''-'' # string_of_nat (nat (- i)) else string_of_nat (nat i))"

definition fresh_id :: "nat \<Rightarrow> string" where
  "fresh_id n = ''new'' @ string_of_nat n"

text \<open>\<^verbatim>\<open>Date.now()\<close>: the next reading of the clock.\<close>

definition date_now :: "world \<Rightarrow> int \<times> world" where
  "date_now w = (clock w (ticks w), w\<lparr>ticks := Suc (ticks w)\<rparr>)"

definition matches :: "query \<Rightarrow> drive_file \<Rightarrow> bool" where
  "matches q f =
     (\<not> f_trashed f
      \<and> (case q_parent q of None \<Rightarrow> True | Some p \<Rightarrow> p \<in> set (f_parents f))
      \<and> (case q_mime q of AnyMime \<Rightarrow> True
           | IsFolder \<Rightarrow> f_mimeType f = folderMime
           | NotFolder \<Rightarrow> f_mimeType f \<noteq> folderMime)
      \<and> (case q_names q of None \<Rightarrow> True | Some ns \<Rightarrow> f_name f \<in> set ns))"

text \<open>
  \<^verbatim>\<open>listFilesInPage(pageToken, {q, pageSize})\<close>: one page of the files that match, and the
  token of the next page when there is one. A page token continues the request that
  handed it out. Drive does not say what such a listing returns of the files that are
  written while it is followed; the model takes the list of the files that match when the
  first page is asked for (no token), and a token stands for the part of that list that
  is still to be returned. So a listing that is followed to its end returns each file that
  matched at its start once, whatever is written to the store in between.
\<close>

definition listFilesInPage ::
  "drive_file list option \<Rightarrow> query \<Rightarrow> nat \<Rightarrow> world \<Rightarrow> (string + page) \<times> world" where
  "listFilesInPage pageToken q pageSize w =
    (let c = ListFiles q pageToken pageSize in
     case fault w (length (events w)) c of
       Some msg \<Rightarrow> (Inl msg, w\<lparr>events := (c, Failed msg) # events w\<rparr>)
     | None \<Rightarrow>
        (let hits = (case pageToken of None \<Rightarrow> filter (matches q) (drive w) | Some rest \<Rightarrow> rest);
             pg = \<lparr>p_files = take pageSize hits,
                   p_nextPageToken = (if pageSize < length hits
                                      then Some (drop pageSize hits) else None)\<rparr>
         in (Inr pg, w\<lparr>events := (c, Listed pg) # events w\<rparr>)))"

definition createFolder :: "string \<Rightarrow> string \<Rightarrow> world \<Rightarrow> (string + string) \<times> world" where
  "createFolder nm parentId w =
    (let c = CreateFolder nm parentId in
     case fault w (length (events w)) c of
       Some msg \<Rightarrow> (Inl msg, w\<lparr>events := (c, Failed msg) # events w\<rparr>)
     | None \<Rightarrow>
        (let newId = fresh_id (nextId w);
             f = \<lparr>f_id = newId, f_name = nm, f_mimeType = folderMime, f_size = None,
                  f_modifiedTime = Some (clock w (ticks w)), f_md5Checksum = None,
                  f_parents = [parentId], f_trashed = False\<rparr>
         in (Inr newId, w\<lparr>drive := drive w @ [f], nextId := Suc (nextId w),
                           events := (c, Made newId) # events w\<rparr>)))"

definition copyFile ::
  "string \<Rightarrow> string \<Rightarrow> string \<Rightarrow> world \<Rightarrow> (string + string) \<times> world" where
  "copyFile fileId nm parentId w =
    (let c = CopyFile fileId nm parentId in
     case fault w (length (events w)) c of
       Some msg \<Rightarrow> (Inl msg, w\<lparr>events := (c, Failed msg) # events w\<rparr>)
     | None \<Rightarrow>
        (case List.find (\<lambda>f. f_id f = fileId) (drive w) of
           None \<Rightarrow> (Inl ''File not found'', w\<lparr>events := (c, Failed ''File not found'') # events w\<rparr>)
         | Some src \<Rightarrow>
            (let newId = fresh_id (nextId w);
                 f = src\<lparr>f_id := newId, f_name := nm,
                         f_modifiedTime := Some (clock w (ticks w)),
                         f_parents := [parentId], f_trashed := False\<rparr>
             in (Inr newId, w\<lparr>drive := drive w @ [f], nextId := Suc (nextId w),
                               events := (c, Made newId) # events w\<rparr>))))"

definition deleteFile :: "string \<Rightarrow> world \<Rightarrow> (string + unit) \<times> world" where
  "deleteFile fileId w =
    (let c = DeleteFile fileId in
     case fault w (length (events w)) c of
       Some msg \<Rightarrow> (Inl msg, w\<lparr>events := (c, Failed msg) # events w\<rparr>)
     | None \<Rightarrow>
        (case List.find (\<lambda>f. f_id f = fileId) (drive w) of
           None \<Rightarrow> (Inl ''File not found'', w\<lparr>events := (c, Failed ''File not found'') # events w\<rparr>)
         | Some _ \<Rightarrow>
            (Inr (), w\<lparr>drive := filter (\<lambda>f. f_id f \<noteq> fileId) (drive w),
                         events := (c, Done) # events w\<rparr>)))"

text \<open>\<^verbatim>\<open>new Map(pairs)\<close>: the pairs are set one after the other.\<close>

definition new_Map :: "(string \<times> string) list \<Rightarrow> (string \<times> string) list" where
  "new_Map pairs = foldl (\<lambda>m kv. AList.update (fst kv) (snd kv) m) [] pairs"

subsection \<open>The enumeration (compare_folders)\<close>

definition children_query :: "string \<Rightarrow> query" where
  "children_query folderId = \<lparr>q_parent = Some folderId, q_mime = AnyMime, q_names = None\<rparr>"

text \<open>The \<^verbatim>\<open>fileData\<close> object of one listed file.\<close>

definition fileData :: "string \<Rightarrow> drive_file \<Rightarrow> entry" where
  "fileData basePath file =
     \<lparr>e_id = f_id file, e_name = f_name file,
      e_path = (if basePath \<noteq> [] then basePath @ ''/'' @ f_name file else f_name file),
      e_mimeType = f_mimeType file, e_size = f_size file,
      e_modifiedTime = f_modifiedTime file, e_md5Checksum = f_md5Checksum file,
      e_isFolder = (f_mimeType file = folderMime)\<rparr>"

text \<open>
  \<^verbatim>\<open>getAllFilesInFolder\<close>, its \<^verbatim>\<open>do ... while (pageToken)\<close> loop and the \<^verbatim>\<open>for\<close> loop over
  one page. The two arrays \<^verbatim>\<open>files\<close> and \<^verbatim>\<open>folders\<close> are threaded through the loops. The
  listing call is sent without a page size; Drive's default is 100. A failed listing
  raises and ends the whole enumeration (\<open>Inl\<close>). The fuel bounds the depth of the calls
  and the number of pages; \<open>None\<close> is a run that has not returned within it.
\<close>

function (sequential) getAllFilesInFolder ::
    "nat \<Rightarrow> string \<Rightarrow> bool \<Rightarrow> string \<Rightarrow> world \<Rightarrow> ((string + entry list) \<times> world) option"
  and gaf_pages ::
    "nat \<Rightarrow> string \<Rightarrow> bool \<Rightarrow> string \<Rightarrow> drive_file list option \<Rightarrow> entry list \<Rightarrow> entry list
      \<Rightarrow> world
      \<Rightarrow> ((string + entry list \<times> entry list) \<times> world) option"
  and gaf_page ::
    "nat \<Rightarrow> bool \<Rightarrow> string \<Rightarrow> drive_file list \<Rightarrow> entry list \<Rightarrow> entry list \<Rightarrow> world
      \<Rightarrow> ((string + entry list \<times> entry list) \<times> world) option"
where
  "getAllFilesInFolder 0 folderId includeSubs basePath w = None"
| "getAllFilesInFolder (Suc n) folderId includeSubs basePath w =
    (case gaf_pages n folderId includeSubs basePath None [] [] w of
       None \<Rightarrow> None
     | Some (Inl err, w1) \<Rightarrow> Some (Inl err, w1)
     | Some (Inr (files, folders), w1) \<Rightarrow> Some (Inr (folders @ files), w1))"
| "gaf_pages 0 folderId includeSubs basePath pageToken files folders w = None"
| "gaf_pages (Suc n) folderId includeSubs basePath pageToken files folders w =
    (case listFilesInPage pageToken (children_query folderId) 100 w of
       (Inl err, w1) \<Rightarrow> Some (Inl err, w1)
     | (Inr response, w1) \<Rightarrow>
        (case gaf_page n includeSubs basePath (p_files response) files folders w1 of
           None \<Rightarrow> None
         | Some (Inl err, w2) \<Rightarrow> Some (Inl err, w2)
         | Some (Inr (files1, folders1), w2) \<Rightarrow>
            (case p_nextPageToken response of
               None \<Rightarrow> Some (Inr (files1, folders1), w2)
             | Some t \<Rightarrow> gaf_pages n folderId includeSubs basePath (Some t) files1 folders1 w2)))"
| "gaf_page n includeSubs basePath [] files folders w = Some (Inr (files, folders), w)"
| "gaf_page n includeSubs basePath (file # rest) files folders w =
    (let entry = fileData basePath file in
     if e_isFolder entry then
       (if includeSubs then
          (case getAllFilesInFolder n (f_id file) includeSubs (e_path entry) w of
             None \<Rightarrow> None
           | Some (Inl err, w1) \<Rightarrow> Some (Inl err, w1)
           | Some (Inr subFiles, w1) \<Rightarrow>
               gaf_page n includeSubs basePath rest (files @ subFiles) (folders @ [entry]) w1)
        else gaf_page n includeSubs basePath rest files (folders @ [entry]) w)
     else gaf_page n includeSubs basePath rest (files @ [entry]) folders w)"
  by pat_completeness auto
termination
  by (relation "measures
       [\<lambda>x. case x of Inl (n, _) \<Rightarrow> n | Inr (Inl (n, _)) \<Rightarrow> n | Inr (Inr (n, _)) \<Rightarrow> n,
        \<lambda>x. case x of Inl _ \<Rightarrow> 0 | Inr (Inl _) \<Rightarrow> 0
              | Inr (Inr (_, _, _, fs, _)) \<Rightarrow> Suc (length fs)]") auto

text \<open>Sample stores: files with one parent each, no failing call, a clock that stands still.\<close>

definition mk_file :: "string \<Rightarrow> string \<Rightarrow> string \<Rightarrow> string \<Rightarrow> drive_file" where
  "mk_file i nm mime parent =
     \<lparr>f_id = i, f_name = nm, f_mimeType = mime, f_size = None, f_modifiedTime = Some 0,
      f_md5Checksum = None, f_parents = [parent], f_trashed = False\<rparr>"

definition mk_world :: "drive_file list \<Rightarrow> world" where
  "mk_world fs = \<lparr>drive = fs, nextId = 0, fault = (\<lambda>n c. None), clock = (\<lambda>n. 0), ticks = 0,
                  events = []\<rparr>"

text \<open>
  The root \<^verbatim>\<open>R\<close> holds the folders \<^verbatim>\<open>A\<close> and \<^verbatim>\<open>B\<close>; \<^verbatim>\<open>A\<close> holds the file \<^verbatim>\<open>f\<close>, \<^verbatim>\<open>B\<close> holds
  the folder \<^verbatim>\<open>Y\<close>.
\<close>

definition ex_tree :: world where
  "ex_tree = mk_world
     [mk_file ''A'' ''A'' folderMime ''R'', mk_file ''B'' ''B'' folderMime ''R'',
      mk_file ''f'' ''f'' ''text/plain'' ''A'', mk_file ''Y'' ''Y'' folderMime ''B'']"

text \<open>The path and the folder flag of each entry of a returned enumeration, in order.\<close>

definition entry_shape ::
  "((string + entry list) \<times> world) option \<Rightarrow> (string \<times> bool) list option" where
  "entry_shape r =
     (case r of Some (Inr es, w) \<Rightarrow> Some (map (\<lambda>e. (e_path e, e_isFolder e)) es) | _ \<Rightarrow> None)"

subsection \<open>The copy action: configuration and accumulator (execute_folder_copy)\<close>

text \<open>
  The props of the action (\<^verbatim>\<open>this.sourceFolderId\<close> and the others). The source folder and the
  list of file ids are optional. The batch size and the concurrency are integers that the
  prop definitions bound below by 1.
\<close>

record config =
  sourceFolderId :: "string option"
  sourceFileIds :: "string list option"
  destinationFolderId :: string
  includeSubfolders :: bool
  conflictResolution :: string
  preserveStructure :: bool
  batchSize :: nat
  maxConcurrency :: nat

text \<open>The record pushed onto \<^verbatim>\<open>folders\<close> by \<^verbatim>\<open>createFolderStructureOptimized\<close>.\<close>

record folder_rec =
  fr_sourceId :: string
  fr_destId :: string
  fr_name :: string
  fr_path :: string

text \<open>The element of \<^verbatim>\<open>results.createdFolders\<close>.\<close>

record created_folder =
  cf_name :: string
  cf_id :: string
  cf_path :: string

text \<open>The success record of one copy.\<close>

record copied_file =
  originalName :: string
  newName :: string
  originalId :: string
  newId :: string
  c_size :: "string option"
  c_mimeType :: string

text \<open>
  The three objects a copy task returns: \<^verbatim>\<open>{success: true, skipped: true, file}\<close>, the success
  record, and \<^verbatim>\<open>{success: false, file: file.name, error: error.message, type:
  "file_copy_error"}\<close>.
\<close>

datatype task_value =
    Skipped drive_file
  | Copied copied_file
  | CopyError string string

fun tv_success :: "task_value \<Rightarrow> bool" where
  "tv_success (Skipped f) = True"
| "tv_success (Copied c) = True"
| "tv_success (CopyError nm err) = False"

text \<open>\<^verbatim>\<open>value.skipped\<close>: only the first object has the field; elsewhere it is \<^verbatim>\<open>undefined\<close>.\<close>

fun tv_skipped :: "task_value \<Rightarrow> bool" where
  "tv_skipped (Skipped f) = True"
| "tv_skipped (Copied c) = False"
| "tv_skipped (CopyError nm err) = False"

text \<open>An element of the array returned by \<^verbatim>\<open>Promise.allSettled\<close>.\<close>

datatype 'a settled = Fulfilled 'a | Rejected string

text \<open>
  What \<^verbatim>\<open>results.errors\<close> can hold: \<^verbatim>\<open>{error, type: "batch_processing_error"}\<close>, or the
  \<^verbatim>\<open>reason\<close> of a rejected task.
\<close>

datatype error_item = BatchProcessingError string | RejectionReason string

record results =
  foldersCreated :: nat
  filesCopied :: nat
  errors :: "error_item list"
  copiedFiles :: "task_value list"
  createdFolders :: "created_folder list"

subsection \<open>Folder replication (execute_folder_copy)\<close>

definition folders_query :: "string \<Rightarrow> query" where
  "folders_query parentId = \<lparr>q_parent = Some parentId, q_mime = IsFolder, q_names = None\<rparr>"

text \<open>
  \<^verbatim>\<open>createFolderStructureOptimized\<close> and its \<^verbatim>\<open>for\<close> loop over the listed subfolders. The
  whole body stands in one \<^verbatim>\<open>try\<close>: a failed listing or a failed \<^verbatim>\<open>createFolder\<close> ends the
  call, which returns the records pushed so far. \<^verbatim>\<open>folderCache\<close> is threaded through; the
  source writes it and never reads it. The fuel bounds the depth of the calls.
\<close>

function (sequential) createFolderStructureOptimized ::
    "nat \<Rightarrow> config \<Rightarrow> string option \<Rightarrow> string \<Rightarrow> string \<Rightarrow> (string \<times> string) list \<times> world
      \<Rightarrow> (folder_rec list \<times> (string \<times> string) list \<times> world) option"
  and cfso_loop ::
    "nat \<Rightarrow> config \<Rightarrow> string \<Rightarrow> string \<Rightarrow> (string \<times> string) list \<Rightarrow> drive_file list
      \<Rightarrow> folder_rec list \<Rightarrow> (string \<times> string) list \<times> world
      \<Rightarrow> (folder_rec list \<times> (string \<times> string) list \<times> world) option"
where
  "createFolderStructureOptimized 0 cfg sourceId destParentId folderPath st = None"
| "createFolderStructureOptimized (Suc n) cfg sourceId destParentId folderPath st =
    (case st of (folderCache, w) \<Rightarrow>
      (case sourceId of
         None \<Rightarrow> Some ([], folderCache, w)
       | Some sid \<Rightarrow>
          if sid = [] then Some ([], folderCache, w)
          else
            (case listFilesInPage None (folders_query sid) 100 w of
               (Inl err, w1) \<Rightarrow> Some ([], folderCache, w1)
             | (Inr subfolders, w1) \<Rightarrow>
                (case listFilesInPage None (folders_query destParentId) 100 w1 of
                   (Inl err, w2) \<Rightarrow> Some ([], folderCache, w2)
                 | (Inr existingFolders, w2) \<Rightarrow>
                     cfso_loop n cfg destParentId folderPath
                       (new_Map (map (\<lambda>f. (f_name f, f_id f)) (p_files existingFolders)))
                       (p_files subfolders) [] (folderCache, w2)))))"
| "cfso_loop n cfg destParentId folderPath existingFolderMap [] folders st =
    (case st of (folderCache, w) \<Rightarrow> Some (folders, folderCache, w))"
| "cfso_loop n cfg destParentId folderPath existingFolderMap (folder # rest) folders st =
    (case st of (folderCache, w) \<Rightarrow>
      (let currentPath = (if folderPath \<noteq> [] then folderPath @ ''/'' @ f_name folder
                          else f_name folder)
       in case (case map_of existingFolderMap (f_name folder) of
                  Some existing \<Rightarrow> (Inr existing, w)
                | None \<Rightarrow> createFolder (f_name folder) destParentId w) of
            (Inl err, w1) \<Rightarrow> Some (folders, folderCache, w1)
          | (Inr destFolderId, w1) \<Rightarrow>
             (let folderCache1 = AList.update (f_id folder) destFolderId folderCache;
                  folders1 = folders @ [\<lparr>fr_sourceId = f_id folder, fr_destId = destFolderId,
                                          fr_name = f_name folder, fr_path = currentPath\<rparr>]
              in if includeSubfolders cfg then
                   (case createFolderStructureOptimized n cfg (Some (f_id folder)) destFolderId
                           currentPath (folderCache1, w1) of
                      None \<Rightarrow> None
                    | Some (subFolders, folderCache2, w2) \<Rightarrow>
                        cfso_loop n cfg destParentId folderPath existingFolderMap rest
                          (folders1 @ subFolders) (folderCache2, w2))
                 else cfso_loop n cfg destParentId folderPath existingFolderMap rest folders1
                        (folderCache1, w1))))"
  by pat_completeness auto
termination
  by (relation "measures
       [\<lambda>x. case x of Inl (n, _) \<Rightarrow> n | Inr (n, _) \<Rightarrow> n,
        \<lambda>x. case x of Inl _ \<Rightarrow> 0 | Inr (_, _, _, _, _, fs, _) \<Rightarrow> Suc (length fs)]") auto

subsection \<open>File replication (execute_folder_copy)\<close>

text \<open>
  \<^verbatim>\<open>limitConcurrency\<close> receives the promises of tasks that are already running and awaits
  them \<^verbatim>\<open>maxConcurrency\<close> at a time; \<open>i\<close> is the loop variable. With a step of 0 the loop
  never advances (\<open>None\<close>).
\<close>

function limitConcurrency :: "nat \<Rightarrow> 'a list \<Rightarrow> nat \<Rightarrow> 'a list option" where
  "limitConcurrency i tasks maxConc =
     (if i < length tasks then
        (if maxConc = 0 then None
         else (case limitConcurrency (i + maxConc) tasks maxConc of
                 None \<Rightarrow> None
               | Some results \<Rightarrow> Some (take maxConc (drop i tasks) @ results)))
      else Some [])"
  by pat_completeness auto
termination
  by (relation "measure (\<lambda>(i, tasks, maxConc). length tasks - i)") auto

declare limitConcurrency.simps [simp del]

text \<open>
  \<^verbatim>\<open>processInBatches\<close>: the batches are slices of \<^verbatim>\<open>batchSize\<close> items, handed in order to the
  processor, which also updates the state \<open>st\<close> its closure captures. The pause between
  batches leaves no trace but on the clock.
\<close>

function processInBatches ::
  "nat \<Rightarrow> 'a list \<Rightarrow> nat \<Rightarrow> ('a list \<Rightarrow> nat \<Rightarrow> 's \<Rightarrow> ('b list \<times> 's) option) \<Rightarrow> 's
    \<Rightarrow> ('b list \<times> 's) option" where
  "processInBatches i items bSize processor st =
     (if i < length items then
        (if bSize = 0 then None
         else (case processor (take bSize (drop i items)) i st of
                 None \<Rightarrow> None
               | Some (batchResults, st1) \<Rightarrow>
                  (case processInBatches (i + bSize) items bSize processor st1 of
                     None \<Rightarrow> None
                   | Some (results, st2) \<Rightarrow> Some (batchResults @ results, st2))))
      else Some ([], st))"
  by pat_completeness auto
termination
  by (relation "measure (\<lambda>(i, items, bSize, processor, st). length items - i)") auto

declare processInBatches.simps [simp del]

definition names_query :: "string list \<Rightarrow> string \<Rightarrow> query" where
  "names_query names parentId = \<lparr>q_parent = Some parentId, q_mime = AnyMime, q_names = Some names\<rparr>"

text \<open>
  \<^verbatim>\<open>getExistingFiles\<close>: one query for the first ten names; a failure is logged to the console
  and answered by an empty map.
\<close>

definition getExistingFiles ::
  "string \<Rightarrow> string list \<Rightarrow> world \<Rightarrow> (string \<times> string) list \<times> world" where
  "getExistingFiles destFolderId fileNames w =
     (if length fileNames = 0 then ([], w)
      else
        (case listFilesInPage None (names_query (take 10 fileNames) destFolderId) 100 w of
           (Inl err, w1) \<Rightarrow> ([], w1)
         | (Inr existingFiles, w1) \<Rightarrow>
             (new_Map (map (\<lambda>f. (f_name f, f_id f)) (p_files existingFiles)), w1)))"

text \<open>\<^verbatim>\<open>s.split(c)\<close> and \<^verbatim>\<open>s.lastIndexOf(c)\<close> for a one-character separator.\<close>

fun split_on :: "char \<Rightarrow> string \<Rightarrow> string list" where
  "split_on c [] = [[]]"
| "split_on c (x # xs) =
     (if x = c then [] # split_on c xs
      else (case split_on c xs of [] \<Rightarrow> [[x]] | p # ps \<Rightarrow> (x # p) # ps))"

definition lastIndexOf :: "char \<Rightarrow> string \<Rightarrow> int" where
  "lastIndexOf c s =
     (case filter (\<lambda>i. s ! i = c) (rev [0..<length s]) of [] \<Rightarrow> - 1 | i # _ \<Rightarrow> int i)"

text \<open>
  The name synthesised under the policy \<^verbatim>\<open>rename\<close>, from the colliding name and the reading
  of \<^verbatim>\<open>Date.now()\<close>: the constants \<^verbatim>\<open>extension\<close> and \<^verbatim>\<open>baseName\<close>, then the template.
\<close>

definition extension_of :: "string \<Rightarrow> string" where
  "extension_of fileName =
     (if CHR ''.'' \<in> set fileName then last (split_on CHR ''.'' fileName) else [])"

definition baseName_of :: "string \<Rightarrow> string" where
  "baseName_of fileName =
     (if CHR ''.'' \<in> set fileName
      then take (nat (lastIndexOf CHR ''.'' fileName)) fileName else fileName)"

definition rename_copy :: "string \<Rightarrow> int \<Rightarrow> string" where
  "rename_copy fileName timestamp =
     (let extension = extension_of fileName;
          baseName = baseName_of fileName
      in if extension \<noteq> []
         then baseName @ ''_copy_'' @ string_of_int timestamp @ ''.'' @ extension
         else baseName @ ''_copy_'' @ string_of_int timestamp)"

text \<open>
  The tasks of \<^verbatim>\<open>copyFileBatch\<close> are calls of one \<^verbatim>\<open>async (file) => {...}\<close>, whose body is a
  \<^verbatim>\<open>try\<close> with two \<^verbatim>\<open>await\<close>s: the \<^verbatim>\<open>deleteFile\<close> of the policy \<^verbatim>\<open>replace\<close>, and the
  \<^verbatim>\<open>copyFile\<close>. First the end of the body: the \<^verbatim>\<open>copyFile\<close> call under a given name, the
  success record that is returned once it is answered, and the \<^verbatim>\<open>catch\<close>, which turns a
  failure into the error object.
\<close>

definition copy_as :: "drive_file \<Rightarrow> string \<Rightarrow> string \<Rightarrow> world \<Rightarrow> task_value \<times> world" where
  "copy_as file fileName destFolderId w =
     (case copyFile (f_id file) fileName destFolderId w of
        (Inl err, w1) \<Rightarrow> (CopyError (f_name file) err, w1)
      | (Inr copiedId, w1) \<Rightarrow>
         (Copied \<lparr>originalName = f_name file, newName = fileName,
                  originalId = f_id file, newId = copiedId,
                  c_size = f_size file, c_mimeType = f_mimeType file\<rparr>, w1))"

text \<open>
  The body from its start to the answer of the first call it awaits. Under \<^verbatim>\<open>skip\<close> a
  file whose name is in the map is returned at once, without a call. Under \<^verbatim>\<open>rename\<close> the
  clock is read and the first call is the \<^verbatim>\<open>copyFile\<close> under the new name; without a
  collision it is the \<^verbatim>\<open>copyFile\<close> under the name of the file. In these cases the task
  ends with the answer (\<open>Inl\<close> of its value). Under \<^verbatim>\<open>replace\<close> the first call is the
  \<^verbatim>\<open>deleteFile\<close> of the file the map holds for the name: when it fails the \<^verbatim>\<open>catch\<close> ends
  the task, otherwise the \<^verbatim>\<open>copyFile\<close> is still to be sent (\<open>Inr\<close>).
\<close>

definition task_begin ::
  "config \<Rightarrow> string \<Rightarrow> (string \<times> string) list \<Rightarrow> drive_file \<Rightarrow> world
    \<Rightarrow> (task_value + unit) \<times> world" where
  "task_begin cfg destFolderId existingFileMap file w =
    (let fileExists = (map_of existingFileMap (f_name file) \<noteq> None)
     in if fileExists \<and> conflictResolution cfg = ''skip'' then (Inl (Skipped file), w)
        else if fileExists \<and> conflictResolution cfg = ''rename'' then
          (case date_now w of
             (timestamp, w1) \<Rightarrow>
               (case copy_as file (rename_copy (f_name file) timestamp) destFolderId w1 of
                  (v, w2) \<Rightarrow> (Inl v, w2)))
        else if fileExists \<and> conflictResolution cfg = ''replace'' then
          (case map_of existingFileMap (f_name file) of
             None \<Rightarrow>
               (case copy_as file (f_name file) destFolderId w of (v, w1) \<Rightarrow> (Inl v, w1))
           | Some existingId \<Rightarrow>
               (case deleteFile existingId w of
                  (Inl err, w1) \<Rightarrow> (Inl (CopyError (f_name file) err), w1)
                | (Inr u, w1) \<Rightarrow> (Inr (), w1)))
        else (case copy_as file (f_name file) destFolderId w of (v, w1) \<Rightarrow> (Inl v, w1)))"

text \<open>
  What is left of a task after its first call: nothing when it has ended, the \<^verbatim>\<open>copyFile\<close>
  under the name of the file when a deletion was answered.
\<close>

definition task_resume ::
  "string \<Rightarrow> drive_file \<Rightarrow> task_value + unit \<Rightarrow> world \<Rightarrow> task_value \<times> world" where
  "task_resume destFolderId file s w =
     (case s of Inl v \<Rightarrow> (v, w) | Inr u \<Rightarrow> copy_as file (f_name file) destFolderId w)"

text \<open>One task run alone, from its start to its value.\<close>

definition copy_task ::
  "config \<Rightarrow> string \<Rightarrow> (string \<times> string) list \<Rightarrow> drive_file \<Rightarrow> world \<Rightarrow> task_value \<times> world" where
  "copy_task cfg destFolderId existingFileMap file w =
     (case task_begin cfg destFolderId existingFileMap file w of
        (s, w1) \<Rightarrow> task_resume destFolderId file s w1)"

text \<open>
  \<^verbatim>\<open>files.map(async (file) => ...)\<close> calls the function on each file of the batch in turn,
  and each call runs up to its first \<^verbatim>\<open>await\<close> before \<^verbatim>\<open>map\<close> goes on to the next file: the
  first calls of all the tasks are sent in the order of the batch, before any task goes
  on. The store answers the calls in the order it receives them, so the tasks that await
  a deletion go on after that, in the order of the batch, and send their \<^verbatim>\<open>copyFile\<close>. No
  task rejects, since each catches its own failures.
\<close>

fun begin_tasks ::
  "config \<Rightarrow> string \<Rightarrow> (string \<times> string) list \<Rightarrow> drive_file list \<Rightarrow> world
    \<Rightarrow> (task_value + unit) list \<times> world" where
  "begin_tasks cfg destFolderId existingFileMap [] w = ([], w)"
| "begin_tasks cfg destFolderId existingFileMap (file # rest) w =
     (case task_begin cfg destFolderId existingFileMap file w of
        (s, w1) \<Rightarrow>
          (case begin_tasks cfg destFolderId existingFileMap rest w1 of
             (ss, w2) \<Rightarrow> (s # ss, w2)))"

fun resume_tasks ::
  "string \<Rightarrow> (drive_file \<times> (task_value + unit)) list \<Rightarrow> world
    \<Rightarrow> task_value settled list \<times> world" where
  "resume_tasks destFolderId [] w = ([], w)"
| "resume_tasks destFolderId ((file, s) # rest) w =
     (case task_resume destFolderId file s w of
        (v, w1) \<Rightarrow>
          (case resume_tasks destFolderId rest w1 of
             (vs, w2) \<Rightarrow> (Fulfilled v # vs, w2)))"

definition start_tasks ::
  "config \<Rightarrow> string \<Rightarrow> (string \<times> string) list \<Rightarrow> drive_file list \<Rightarrow> world
    \<Rightarrow> task_value settled list \<times> world" where
  "start_tasks cfg destFolderId existingFileMap files w =
     (case begin_tasks cfg destFolderId existingFileMap files w of
        (ss, w1) \<Rightarrow> resume_tasks destFolderId (zip files ss) w1)"

definition copyFileBatch ::
  "config \<Rightarrow> drive_file list \<Rightarrow> string \<Rightarrow> (string \<times> string) list \<Rightarrow> world
    \<Rightarrow> (task_value settled list \<times> world) option" where
  "copyFileBatch cfg files destFolderId existingFileMap w =
     (case start_tasks cfg destFolderId existingFileMap files w of
        (copyTasks, w1) \<Rightarrow>
          (case limitConcurrency 0 copyTasks (maxConcurrency cfg) of
             None \<Rightarrow> None
           | Some settled \<Rightarrow> Some (settled, w1)))"

text \<open>
  The body of the loop \<^verbatim>\<open>for (const result of copyResults)\<close>. A fulfilled result always
  carries an object, so the first test of the source holds for it, and the inner tests
  decide: a success that was not skipped is counted and recorded, a skipped one is only
  passed on, and for anything else neither inner branch applies. The \<^verbatim>\<open>else if\<close> of the
  outer test is reached by a rejected result alone, whose \<^verbatim>\<open>reason\<close> goes to the errors.
\<close>

fun process_result ::
  "results \<times> task_value list \<Rightarrow> task_value settled \<Rightarrow> results \<times> task_value list" where
  "process_result (res, processedResults) (Fulfilled v) =
     (if tv_success v \<and> \<not> tv_skipped v
      then (res\<lparr>filesCopied := filesCopied res + 1, copiedFiles := copiedFiles res @ [v]\<rparr>,
            processedResults @ [v])
      else if tv_skipped v then (res, processedResults @ [v])
      else (res, processedResults))"
| "process_result (res, processedResults) (Rejected why) =
     (res\<lparr>errors := errors res @ [RejectionReason why]\<rparr>, processedResults)"

text \<open>
  The processor that \<^verbatim>\<open>copyFilesOptimized\<close> hands to \<^verbatim>\<open>processInBatches\<close>. The state it
  captures is \<^verbatim>\<open>totalProcessed\<close>, \<^verbatim>\<open>results\<close> and the store.
\<close>

definition batch_processor ::
  "config \<Rightarrow> string \<Rightarrow> (string \<times> string) list \<Rightarrow> drive_file list \<Rightarrow> nat
    \<Rightarrow> nat \<times> results \<times> world \<Rightarrow> (task_value list \<times> nat \<times> results \<times> world) option" where
  "batch_processor cfg destFolderId existingFileMap batch batchIndex st =
     (case st of (totalProcessed, res, w) \<Rightarrow>
       (case copyFileBatch cfg batch destFolderId existingFileMap w of
          None \<Rightarrow> None
        | Some (copyResults, w1) \<Rightarrow>
           (case foldl process_result (res, []) copyResults of
              (res1, processedResults) \<Rightarrow>
                Some (processedResults, totalProcessed + length batch, res1, w1))))"

text \<open>The query of \<^verbatim>\<open>copyFilesOptimized\<close>: the parent clause is there only for a truthy id.\<close>

definition files_query :: "string option \<Rightarrow> query" where
  "files_query sourceId =
     (if truthy sourceId then \<lparr>q_parent = sourceId, q_mime = NotFolder, q_names = None\<rparr>
      else \<lparr>q_parent = None, q_mime = NotFolder, q_names = None\<rparr>)"

text \<open>\<^verbatim>\<open>this.sourceFileIds?.length > 0\<close> and the filter it guards.\<close>

definition allow_list :: "config \<Rightarrow> drive_file list \<Rightarrow> drive_file list" where
  "allow_list cfg filesToProcess =
     (case sourceFileIds cfg of
        None \<Rightarrow> filesToProcess
      | Some ids \<Rightarrow> if length ids > 0 then filter (\<lambda>file. f_id file \<in> set ids) filesToProcess
                    else filesToProcess)"

text \<open>
  The \<^verbatim>\<open>do ... while (pageToken)\<close> loop of \<^verbatim>\<open>copyFilesOptimized\<close>. A failed listing is pushed
  onto the errors and breaks the loop. The fuel bounds the number of pages.
\<close>

fun cfo_loop ::
  "nat \<Rightarrow> config \<Rightarrow> string option \<Rightarrow> string \<Rightarrow> drive_file list option
    \<Rightarrow> nat \<times> results \<times> world \<Rightarrow> (nat \<times> results \<times> world) option" where
  "cfo_loop 0 cfg sourceId destFolderId pageToken st = None"
| "cfo_loop (Suc n) cfg sourceId destFolderId pageToken st =
    (case st of (totalProcessed, res, w) \<Rightarrow>
      (case listFilesInPage pageToken (files_query sourceId) (min (batchSize cfg * 2) 100) w of
         (Inl err, w1) \<Rightarrow>
           Some (totalProcessed, res\<lparr>errors := errors res @ [BatchProcessingError err]\<rparr>, w1)
       | (Inr filesPage, w1) \<Rightarrow>
          (let filesToProcess = allow_list cfg (p_files filesPage)
           in case (if length filesToProcess > 0 then
                      (case getExistingFiles destFolderId (map f_name filesToProcess) w1 of
                         (existingFileMap, w2) \<Rightarrow>
                           map_option snd
                             (processInBatches 0 filesToProcess (batchSize cfg)
                                (batch_processor cfg destFolderId existingFileMap)
                                (totalProcessed, res, w2)))
                    else Some (totalProcessed, res, w1)) of
                None \<Rightarrow> None
              | Some st1 \<Rightarrow>
                 (case p_nextPageToken filesPage of
                    None \<Rightarrow> Some st1
                  | Some t \<Rightarrow> cfo_loop n cfg sourceId destFolderId (Some t) st1))))"

definition copyFilesOptimized ::
  "nat \<Rightarrow> config \<Rightarrow> string option \<Rightarrow> string \<Rightarrow> results \<times> world \<Rightarrow> (nat \<times> results \<times> world) option" where
  "copyFilesOptimized fuel cfg sourceId destFolderId st =
     (case st of (res, w) \<Rightarrow> cfo_loop fuel cfg sourceId destFolderId None (0, res, w))"

subsection \<open>The run (execute_folder_copy)\<close>

definition timeoutMs :: int where
  "timeoutMs = 270000"

definition timeout_message :: string where
  "timeout_message = ''Operation timeout - consider reducing batch size or using smaller file sets''"

text \<open>\<^verbatim>\<open>checkTimeout\<close> reads the clock and throws (\<open>Inl\<close>) past the deadline.\<close>

definition checkTimeout :: "int \<Rightarrow> world \<Rightarrow> (string + unit) \<times> world" where
  "checkTimeout startTime w =
     (case date_now w of
        (now, w1) \<Rightarrow> if now - startTime > timeoutMs then (Inl timeout_message, w1) else (Inr (), w1))"

text \<open>
  The loop of \<^verbatim>\<open>run\<close> over the folder records: a deadline check, then the files of the
  folder. A thrown error leaves the loop with the accumulator as it stands.
\<close>

fun copy_subfolders ::
  "nat \<Rightarrow> config \<Rightarrow> int \<Rightarrow> folder_rec list \<Rightarrow> results \<times> world
    \<Rightarrow> ((string + unit) \<times> results \<times> world) option" where
  "copy_subfolders fuel cfg startTime [] st = (case st of (res, w) \<Rightarrow> Some (Inr (), res, w))"
| "copy_subfolders fuel cfg startTime (folder # rest) st =
    (case st of (res, w) \<Rightarrow>
      (case checkTimeout startTime w of
         (Inl err, w1) \<Rightarrow> Some (Inl err, res, w1)
       | (Inr u, w1) \<Rightarrow>
          (case copyFilesOptimized fuel cfg (Some (fr_sourceId folder)) (fr_destId folder) (res, w1) of
             None \<Rightarrow> None
           | Some (totalProcessed, res1, w2) \<Rightarrow> copy_subfolders fuel cfg startTime rest (res1, w2))))"

text \<open>
  The \<^verbatim>\<open>try\<close> block of \<^verbatim>\<open>run\<close>, from the creation of \<^verbatim>\<open>folderCache\<close> to the last copy. It
  yields \<open>Inl\<close> with the message of the error that was thrown, or \<open>Inr ()\<close>, and in both
  cases the accumulator and the store as they stand at that point. The status and progress
  exports are left out.
\<close>

definition run_try ::
  "nat \<Rightarrow> config \<Rightarrow> int \<Rightarrow> results \<times> world \<Rightarrow> ((string + unit) \<times> results \<times> world) option" where
  "run_try fuel cfg startTime st =
    (case st of (res, w) \<Rightarrow>
      if preserveStructure cfg \<and> truthy (sourceFolderId cfg) then
        (case checkTimeout startTime w of
           (Inl err, w1) \<Rightarrow> Some (Inl err, res, w1)
         | (Inr u, w1) \<Rightarrow>
            (case createFolderStructureOptimized fuel cfg (sourceFolderId cfg)
                    (destinationFolderId cfg) [] ([], w1) of
               None \<Rightarrow> None
             | Some (folders, folderCache, w2) \<Rightarrow>
                (let res1 = res\<lparr>foldersCreated := length folders,
                                 createdFolders :=
                                   map (\<lambda>f. \<lparr>cf_name = fr_name f, cf_id = fr_destId f,
                                              cf_path = fr_path f\<rparr>) folders\<rparr>
                 in case checkTimeout startTime w2 of
                      (Inl err, w3) \<Rightarrow> Some (Inl err, res1, w3)
                    | (Inr u, w3) \<Rightarrow>
                       (case copyFilesOptimized fuel cfg (sourceFolderId cfg)
                               (destinationFolderId cfg) (res1, w3) of
                          None \<Rightarrow> None
                        | Some (totalProcessed, res2, w4) \<Rightarrow>
                           (case checkTimeout startTime w4 of
                              (Inl err, w5) \<Rightarrow> Some (Inl err, res2, w5)
                            | (Inr u, w5) \<Rightarrow>
                                copy_subfolders fuel cfg startTime folders (res2, w5))))))
      else
        (case checkTimeout startTime w of
           (Inl err, w1) \<Rightarrow> Some (Inl err, res, w1)
         | (Inr u, w1) \<Rightarrow>
            (case copyFilesOptimized fuel cfg (sourceFolderId cfg) (destinationFolderId cfg)
                    (res, w1) of
               None \<Rightarrow> None
             | Some (totalProcessed, res1, w2) \<Rightarrow> Some (Inr (), res1, w2))))"

text \<open>The two objects \<^verbatim>\<open>run\<close> returns.\<close>

record statistics =
  s_foldersCreated :: nat
  s_filesCopied :: nat
  s_errorsCount :: nat
  s_batchSize :: nat
  s_maxConcurrency :: nat

record details =
  d_copiedFiles :: "task_value list"
  d_createdFolders :: "created_folder list"
  d_errors :: "error_item list"

record partial_results =
  p_foldersCreated :: nat
  p_filesCopied :: nat
  p_errorsCount :: nat

datatype run_output =
    Success (o_summary: string) (o_duration: int) (o_statistics: statistics) (o_details: details)
      (o_timestamp: int)
  | Failure (o_error: string) (o_partialResults: partial_results) (o_duration: int)
      (o_timestamp: int)

fun success :: "run_output \<Rightarrow> bool" where
  "success (Success s d st de t) = True"
| "success (Failure e p d t) = False"

text \<open>\<^verbatim>\<open>Math.round((Date.now() - startTime) / 1000)\<close>, on integers.\<close>

definition duration_seconds :: "int \<Rightarrow> int \<Rightarrow> int" where
  "duration_seconds now startTime = (now - startTime + 500) div 1000"

definition initial_results :: results where
  "initial_results = \<lparr>foldersCreated = 0, filesCopied = 0, errors = [], copiedFiles = [],
                       createdFolders = []\<rparr>"

text \<open>
  \<^verbatim>\<open>run\<close>: the accumulator is created, the clock is read, the \<^verbatim>\<open>try\<close> block runs, and the
  \<^verbatim>\<open>catch\<close> turns a thrown error into the failure object. The duration is kept as the
  number of seconds and the timestamp as the clock reading. Beside the returned object
  the model yields the accumulator and the store as the run leaves them.
\<close>

definition run :: "nat \<Rightarrow> config \<Rightarrow> world \<Rightarrow> (run_output \<times> results \<times> world) option" where
  "run fuel cfg w =
    (case date_now w of
       (startTime, w0) \<Rightarrow>
        (case run_try fuel cfg startTime (initial_results, w0) of
           None \<Rightarrow> None
         | Some (Inr u, res, w1) \<Rightarrow>
            (case date_now w1 of
               (t1, w2) \<Rightarrow>
                (let duration = duration_seconds t1 startTime;
                     summary = ''Successfully copied '' @ string_of_nat (filesCopied res)
                               @ '' files and created '' @ string_of_nat (foldersCreated res)
                               @ '' folders in '' @ string_of_int duration @ ''s''
                 in case date_now w2 of
                      (t2, w3) \<Rightarrow>
                        Some (Success summary duration
                                \<lparr>s_foldersCreated = foldersCreated res,
                                 s_filesCopied = filesCopied res,
                                 s_errorsCount = length (errors res),
                                 s_batchSize = batchSize cfg,
                                 s_maxConcurrency = maxConcurrency cfg\<rparr>
                                \<lparr>d_copiedFiles = take 100 (copiedFiles res),
                                 d_createdFolders = createdFolders res,
                                 d_errors = take 50 (errors res)\<rparr>
                                t2, res, w3)))
         | Some (Inl err, res, w1) \<Rightarrow>
            (case date_now w1 of
               (t1, w2) \<Rightarrow>
                (case date_now w2 of
                   (t2, w3) \<Rightarrow>
                     Some (Failure err
                             \<lparr>p_foldersCreated = foldersCreated res,
                              p_filesCopied = filesCopied res,
                              p_errorsCount = length (errors res)\<rparr>
                             (duration_seconds t1 startTime) t2, res, w3)))))"

subsection \<open>Sample runs of the copy action\<close>

text \<open>A configuration with the default batch size and concurrency.\<close>

definition ex_config :: "string option \<Rightarrow> string \<Rightarrow> config" where
  "ex_config src policy =
     \<lparr>sourceFolderId = src, sourceFileIds = None, destinationFolderId = ''D'',
      includeSubfolders = True, conflictResolution = policy, preserveStructure = True,
      batchSize = 20, maxConcurrency = 5\<rparr>"

text \<open>The calls of one kind in a log.\<close>

fun is_create :: "event \<Rightarrow> bool" where
  "is_create (CreateFolder nm p, r) = True"
| "is_create (c, r) = False"

fun is_copy :: "event \<Rightarrow> bool" where
  "is_copy (CopyFile i nm p, r) = True"
| "is_copy (c, r) = False"

text \<open>The source folder \<^verbatim>\<open>S\<close> holds two folders that are both named \<^verbatim>\<open>X\<close>.\<close>

definition ex_twins :: world where
  "ex_twins = mk_world [mk_file ''x1'' ''X'' folderMime ''S'', mk_file ''x2'' ''X'' folderMime ''S'']"

text \<open>Two files in \<^verbatim>\<open>S\<close>; the store rejects every copy of the first.\<close>

definition ex_failing :: world where
  "ex_failing = (mk_world [mk_file ''a'' ''a.txt'' ''text/plain'' ''S'',
                            mk_file ''b'' ''b.txt'' ''text/plain'' ''S''])
                  \<lparr>fault := (\<lambda>n c. case c of
                                     CopyFile i nm p \<Rightarrow>
                                       if i = ''a'' then Some ''Rate limit exceeded'' else None
                                   | _ \<Rightarrow> None)\<rparr>"

text \<open>
  One file in \<^verbatim>\<open>S\<close>, under a name to choose; the fourth reading of the clock, which is
  the deadline check after the files of the root, comes 300 seconds after the start.
\<close>

definition ex_late :: "string \<Rightarrow> world" where
  "ex_late nm = (mk_world [mk_file ''a'' nm ''text/plain'' ''S''])
                  \<lparr>clock := (\<lambda>n. if n < 3 then 0 else 300000)\<rparr>"

text \<open>
  Eleven files \<^verbatim>\<open>n0\<close> ... \<^verbatim>\<open>n10\<close> in \<^verbatim>\<open>S\<close>, and a file named \<^verbatim>\<open>n10\<close> already in the
  destination \<^verbatim>\<open>D\<close>.
\<close>

definition ex_eleven :: world where
  "ex_eleven = mk_world
     (map (\<lambda>i. mk_file (''s'' @ string_of_nat i) (''n'' @ string_of_nat i) ''text/plain'' ''S'') [0..<11]
      @ [mk_file ''e'' ''n10'' ''text/plain'' ''D''])"

text \<open>
  \<^verbatim>\<open>S\<close> and \<^verbatim>\<open>D\<close> both hold a file \<^verbatim>\<open>a.txt\<close>, and the store rejects every query by names.
\<close>

definition ex_unchecked :: world where
  "ex_unchecked = (mk_world [mk_file ''a'' ''a.txt'' ''text/plain'' ''S'',
                              mk_file ''e'' ''a.txt'' ''text/plain'' ''D''])
                    \<lparr>fault := (\<lambda>n c. case c of
                                       ListFiles q tok sz \<Rightarrow>
                                         if q_names q \<noteq> None then Some ''Backend error'' else None
                                     | _ \<Rightarrow> None)\<rparr>"

text \<open>
  \<^verbatim>\<open>S\<close> and \<^verbatim>\<open>D\<close> both hold \<^verbatim>\<open>a.txt\<close> and \<^verbatim>\<open>a_copy_1700000000000.txt\<close>, and the clock
  reads 1700000000000.
\<close>

definition ex_renamed :: world where
  "ex_renamed = (mk_world
     [mk_file ''s1'' ''a.txt'' ''text/plain'' ''S'',
      mk_file ''s2'' ''a_copy_1700000000000.txt'' ''text/plain'' ''S'',
      mk_file ''e1'' ''a.txt'' ''text/plain'' ''D'',
      mk_file ''e2'' ''a_copy_1700000000000.txt'' ''text/plain'' ''D''])
     \<lparr>clock := (\<lambda>n. 1700000000000)\<rparr>"

text \<open>A file \<^verbatim>\<open>a.txt\<close> in some folder \<^verbatim>\<open>Z\<close>, and a file of the same name in \<^verbatim>\<open>D\<close>.\<close>

definition ex_whole :: world where
  "ex_whole = mk_world
     [mk_file ''a'' ''a.txt'' ''text/plain'' ''Z'', mk_file ''e'' ''a.txt'' ''text/plain'' ''D'']"

text \<open>
  \<^verbatim>\<open>S\<close> holds a folder \<^verbatim>\<open>X\<close>, and so does \<^verbatim>\<open>D\<close>; the third reading of the clock, which is
  the deadline check after the folders, comes 300 seconds after the start.
\<close>

definition ex_reused :: world where
  "ex_reused = (mk_world [mk_file ''x'' ''X'' folderMime ''S'', mk_file ''y'' ''X'' folderMime ''D''])
                 \<lparr>clock := (\<lambda>n. if n < 2 then 0 else 300000)\<rparr>"





subsection \<open>Properties of the log of calls\<close>

text \<open>The calls a copy task may send: copies into the destination, and deletions.\<close>

fun task_event :: "string \<Rightarrow> event \<Rightarrow> bool" where
  "task_event dest (CopyFile i nm p, r) = (p = dest)"
| "task_event dest (DeleteFile i, r) = True"
| "task_event dest (c, r) = False"

text \<open>The calls a file replication may send, for a given source and destination.\<close>

fun cfo_event :: "string option \<Rightarrow> string \<Rightarrow> event \<Rightarrow> bool" where
  "cfo_event sourceId dest (ListFiles q tok sz, r) = (q = files_query sourceId \<or> q_names q \<noteq> None)"
| "cfo_event sourceId dest (CopyFile i nm p, r) = (p = dest)"
| "cfo_event sourceId dest (DeleteFile i, r) = True"
| "cfo_event sourceId dest (CreateFolder nm p, r) = False"

text \<open>
  The work a log records: the copies the store made, the folders it made, the listings of
  candidates (queries for files that are not folders, not by names) that it rejected, and
  the copy and delete calls that it rejected. Among the entries of \<^verbatim>\<open>results.errors\<close>, those
  of type \<^verbatim>\<open>batch_processing_error\<close>.
\<close>

fun is_copy_made :: "event \<Rightarrow> bool" where
  "is_copy_made (CopyFile i nm p, Made j) = True"
| "is_copy_made (c, r) = False"

fun is_create_made :: "event \<Rightarrow> bool" where
  "is_create_made (CreateFolder nm p, Made j) = True"
| "is_create_made (c, r) = False"

fun is_listing_failure :: "event \<Rightarrow> bool" where
  "is_listing_failure (ListFiles q tok sz, Failed msg) = (q_mime q = NotFolder \<and> q_names q = None)"
| "is_listing_failure (c, r) = False"

fun is_call_failure :: "event \<Rightarrow> bool" where
  "is_call_failure (CopyFile i nm p, Failed msg) = True"
| "is_call_failure (DeleteFile i, Failed msg) = True"
| "is_call_failure (c, r) = False"

fun is_batch_error :: "error_item \<Rightarrow> bool" where
  "is_batch_error (BatchProcessingError msg) = True"
| "is_batch_error (RejectionReason why) = False"

definition copies_made :: "event list \<Rightarrow> nat" where
  "copies_made evs = length (filter is_copy_made evs)"

definition creates_made :: "event list \<Rightarrow> nat" where
  "creates_made evs = length (filter is_create_made evs)"

definition listing_failures :: "event list \<Rightarrow> nat" where
  "listing_failures evs = length (filter is_listing_failure evs)"

definition call_failures :: "event list \<Rightarrow> nat" where
  "call_failures evs = length (filter is_call_failure evs)"

text \<open>
  Where the folder of a folder record comes from: the store made it, in answer to a
  \<^verbatim>\<open>createFolder\<close> call of the log, or a listing of folders in the log returned it.
\<close>

definition record_origin :: "event list \<Rightarrow> string \<Rightarrow> string \<Rightarrow> bool" where
  "record_origin evs nm i =
     ((\<exists>p. (CreateFolder nm p, Made i) \<in> set evs)
      \<or> (\<exists>q tok sz pg e.
            (ListFiles q tok sz, Listed pg) \<in> set evs \<and> q_mime q = IsFolder
            \<and> e \<in> set (p_files pg) \<and> f_name e = nm \<and> f_id e = i))"

text \<open>The last reading of the clock was more than \<^verbatim>\<open>timeoutMs\<close> after the start.\<close>

definition tripped :: "int \<Rightarrow> world \<Rightarrow> bool" where
  "tripped startTime w = (0 < ticks w \<and> timeoutMs < clock w (ticks w - 1) - startTime)"

text \<open>The settled tasks that made a copy.\<close>

fun copied_value :: "task_value settled \<Rightarrow> bool" where
  "copied_value (Fulfilled (Copied c)) = True"
| "copied_value s = False"

text \<open>
  What a batch does for a candidate \<open>f\<close>, given the map \<open>m\<close> of existing files: a copy call
  into the destination; or, under \<^verbatim>\<open>skip\<close>, nothing when the map holds the name; or, under
  \<^verbatim>\<open>replace\<close>, a deletion of the file the map holds for the name, which failed.
\<close>

definition batch_handled ::
  "config \<Rightarrow> string \<Rightarrow> (string \<times> string) list \<Rightarrow> event list \<Rightarrow> drive_file \<Rightarrow> bool" where
  "batch_handled cfg dest m evs f =
     ((\<exists>nm r. (CopyFile (f_id f) nm dest, r) \<in> set evs)
      \<or> conflictResolution cfg = ''skip'' \<and> map_of m (f_name f) \<noteq> None
      \<or> conflictResolution cfg = ''replace''
        \<and> (\<exists>i msg. map_of m (f_name f) = Some i \<and> (DeleteFile i, Failed msg) \<in> set evs))"

text \<open>
  The same in terms of the log alone: the map is the answer to a query by names in the
  destination, which listed a file \<open>e\<close> of the name of \<open>f\<close>.
\<close>

definition handled :: "config \<Rightarrow> string \<Rightarrow> event list \<Rightarrow> drive_file \<Rightarrow> bool" where
  "handled cfg dest evs f =
     ((\<exists>nm r. (CopyFile (f_id f) nm dest, r) \<in> set evs)
      \<or> (\<exists>q tok sz pg e.
            (ListFiles q tok sz, Listed pg) \<in> set evs
            \<and> q_parent q = Some dest \<and> q_names q \<noteq> None
            \<and> e \<in> set (p_files pg) \<and> f_name e = f_name f
            \<and> (conflictResolution cfg = ''skip''
               \<or> conflictResolution cfg = ''replace''
                 \<and> (\<exists>msg. (DeleteFile (f_id e), Failed msg) \<in> set evs))))"

text \<open>The files a listing has still to return, from its token or, at its start, from the store.\<close>

definition pending :: "drive_file list option \<Rightarrow> query \<Rightarrow> world \<Rightarrow> drive_file list" where
  "pending pageToken q w =
     (case pageToken of None \<Rightarrow> filter (matches q) (drive w) | Some rest \<Rightarrow> rest)"

text \<open>
  A listing of the folders under \<open>p\<close> that did not return the name \<open>nm\<close>.
\<close>

fun justified_by :: "string \<Rightarrow> string \<Rightarrow> event \<Rightarrow> bool" where
  "justified_by p nm (ListFiles q tok sz, Listed pg) =
     (q = folders_query p \<and> nm \<notin> set (map f_name (p_files pg)))"
| "justified_by p nm (c, r) = False"

definition prefetched :: "string \<Rightarrow> string \<Rightarrow> event list \<Rightarrow> bool" where
  "prefetched p nm older = list_ex (justified_by p nm) older"

text \<open>
  A log (most recent call first) in which every \<^verbatim>\<open>createFolder\<close> call comes after a listing
  of the folders of its parent that did not return its name.
\<close>

fun justified :: "event list \<Rightarrow> bool" where
  "justified [] = True"
| "justified ((CreateFolder nm p, r) # older) = (prefetched p nm older \<and> justified older)"
| "justified (ev # older) = justified older"

definition loop_inv :: "(string \<times> string) list \<Rightarrow> string \<Rightarrow> event list \<Rightarrow> bool" where
  "loop_inv m p evs = (\<forall>nm. map_of m nm = None \<longrightarrow> prefetched p nm evs)"

text \<open>From a justified log, a step leads to a justified log that extends it.\<close>

definition keeps :: "world \<Rightarrow> world \<Rightarrow> bool" where
  "keeps w w1 = (justified (events w) \<longrightarrow>
                   justified (events w1) \<and> (\<exists>new. events w1 = new @ events w))"

section \<open>Properties\<close>

subsection \<open>The modification predicate\<close>

lemma isFileModified_reasons_of:
  "reasons_of (isFileModified s d c) =
     (if date_gt (e_modifiedTime s) (e_modifiedTime d) then [newer_modification_time] else [])
     @ (if e_size s \<noteq> e_size d then [different_size] else [])
     @ (if c \<and> truthy (e_md5Checksum s) \<and> truthy (e_md5Checksum d)
           \<and> e_md5Checksum s \<noteq> e_md5Checksum d then [different_content] else [])"
  by (simp add: isFileModified_def Let_def)

lemma isFileModified_None_iff:
  "isFileModified s d c = None \<longleftrightarrow> reasons_of (isFileModified s d c) = []"
  by (simp add: isFileModified_def Let_def)

lemma date_gt_iff:
  "date_gt x y \<longleftrightarrow> (\<exists>a b. x = Some a \<and> y = Some b \<and> b < a)"
  by (cases "(x, y)" rule: date_gt.cases) auto

lemma truthy_iff: "truthy x \<longleftrightarrow> (\<exists>h. x = Some h \<and> h \<noteq> [])"
  by (cases x rule: truthy.cases) auto

text \<open>
  C2. The three reason tags are decided independently of one another:
  \<open>newer_modification_time\<close> is among the reasons exactly when both entries carry a
  modification time and the source's is strictly greater, \<open>different_size\<close> exactly when the
  sizes differ, \<open>different_content\<close> exactly when the content comparison is enabled, both
  entries carry a non-empty checksum and the checksums differ; and the predicate answers
  "unchanged" (\<^verbatim>\<open>false\<close>) exactly when no reason was accumulated, that is when none of the
  three tests holds.
\<close>

theorem isFileModified_additive:
  "(newer_modification_time \<in> set (reasons_of (isFileModified s d c))
      \<longleftrightarrow> (\<exists>a b. e_modifiedTime s = Some a \<and> e_modifiedTime d = Some b \<and> b < a))
   \<and> (different_size \<in> set (reasons_of (isFileModified s d c))
      \<longleftrightarrow> e_size s \<noteq> e_size d)
   \<and> (different_content \<in> set (reasons_of (isFileModified s d c))
      \<longleftrightarrow> c \<and> (\<exists>h. e_md5Checksum s = Some h \<and> h \<noteq> [])
          \<and> (\<exists>h. e_md5Checksum d = Some h \<and> h \<noteq> [])
          \<and> e_md5Checksum s \<noteq> e_md5Checksum d)
   \<and> (isFileModified s d c = None \<longleftrightarrow> reasons_of (isFileModified s d c) = [])
   \<and> (isFileModified s d c = None
      \<longleftrightarrow> \<not> (\<exists>a b. e_modifiedTime s = Some a \<and> e_modifiedTime d = Some b \<and> b < a)
          \<and> e_size s = e_size d
          \<and> \<not> (c \<and> (\<exists>h. e_md5Checksum s = Some h \<and> h \<noteq> [])
                \<and> (\<exists>h. e_md5Checksum d = Some h \<and> h \<noteq> [])
                \<and> e_md5Checksum s \<noteq> e_md5Checksum d))
   \<and> distinct (reasons_of (isFileModified s d c))"
  unfolding isFileModified_None_iff isFileModified_reasons_of
    date_gt_iff[symmetric] truthy_iff[symmetric]
  by auto

subsection \<open>The comparison partitions the paths\<close>

lemma update_path_inv:
  "\<forall>(k,v)\<in>set m. e_path v = k \<Longrightarrow> \<forall>(k,v)\<in>set (AList.update (e_path f) f m). e_path v = k"
  by (induction m) (auto split: if_splits)

lemma build_map_aux:
  "distinct (map fst m) \<Longrightarrow> (\<forall>(k,v)\<in>set m. e_path v = k) \<Longrightarrow>
   distinct (map fst (foldl (\<lambda>m file. AList.update (e_path file) file m) m files))
   \<and> (\<forall>(k,v)\<in>set (foldl (\<lambda>m file. AList.update (e_path file) file m) m files). e_path v = k)
   \<and> fst ` set (foldl (\<lambda>m file. AList.update (e_path file) file m) m files) = fst ` set m \<union> e_path ` set files"
proof (induction files arbitrary: m)
  case Nil then show ?case by simp
next
  case (Cons f fs)
  have d: "distinct (map fst (AList.update (e_path f) f m))"
    using Cons.prems(1) by (rule distinct_update)
  have p: "\<forall>(k,v)\<in>set (AList.update (e_path f) f m). e_path v = k"
    using Cons.prems(2) by (rule update_path_inv)
  from Cons.IH[OF d p] show ?case by (auto simp: dom_update)
qed

lemma build_map_distinct: "distinct (map fst (build_map files))"
  unfolding build_map_def using build_map_aux[of "[]" files] by simp

lemma build_map_keyed: "(k, v) \<in> set (build_map files) \<Longrightarrow> e_path v = k"
  unfolding build_map_def using build_map_aux[of "[]" files] by auto

lemma build_map_keys: "fst ` set (build_map files) = e_path ` set files"
  unfolding build_map_def using build_map_aux[of "[]" files] by simp

lemma fold_source:
  "additions (foldl (classify_source dm cc) c sm)
           = additions c @ map snd (filter (is_added dm) sm)
       \<and> map m_source (modifications (foldl (classify_source dm cc) c sm))
           = map m_source (modifications c) @ map snd (filter (is_modified dm cc) sm)
       \<and> unchanged (foldl (classify_source dm cc) c sm)
           = unchanged c @ map snd (filter (is_unchanged dm cc) sm)
       \<and> deletions (foldl (classify_source dm cc) c sm) = deletions c"
proof (induction sm arbitrary: c)
  case Nil then show ?case by simp
next
  case (Cons kv sm)
  obtain k v where kv: "kv = (k, v)" by (cases kv)
  show ?case
    using Cons.IH[of "classify_source dm cc c kv"]
    by (auto simp: kv classify_source_def is_added_def is_modified_def is_unchanged_def
             split: option.splits)
qed

lemma fold_source_dest:
  "set (map m_destination (modifications (foldl (classify_source dm cc) c sm)))
      \<subseteq> set (map m_destination (modifications c)) \<union> {d. map_of dm (e_path d) = Some d}"
  if "\<forall>kv\<in>set dm. e_path (snd kv) = fst kv"
  using that
proof (induction sm arbitrary: c)
  case Nil then show ?case by simp
next
  case (Cons kv sm)
  obtain k v where kv: "kv = (k, v)" by (cases kv)
  have keyed: "map_of dm k = Some d \<Longrightarrow> e_path d = k" for d
    using Cons.prems by (auto dest!: map_of_SomeD)
  have step: "set (map m_destination (modifications (classify_source dm cc c kv)))
      \<subseteq> set (map m_destination (modifications c)) \<union> {d. map_of dm (e_path d) = Some d}"
    using keyed by (auto simp: kv classify_source_def split: option.splits)
  show ?case
    using Cons.IH[OF Cons.prems, of "classify_source dm cc c kv"] step by auto
qed

lemma fold_dest:
  assumes "\<forall>kv\<in>set dm. e_path (snd kv) = fst kv"
  shows "deletions (foldl (classify_dest sm) c dm)
           = deletions c @ map snd (filter (is_added sm) dm)
       \<and> additions (foldl (classify_dest sm) c dm) = additions c
       \<and> modifications (foldl (classify_dest sm) c dm) = modifications c
       \<and> unchanged (foldl (classify_dest sm) c dm) = unchanged c"
  using assms
proof (induction dm arbitrary: c)
  case Nil then show ?case by simp
next
  case (Cons kv dm)
  obtain k v where kv: "kv = (k, v)" by (cases kv)
  from Cons.prems have pv: "e_path v = k" and rest: "\<forall>kv\<in>set dm. e_path (snd kv) = fst kv"
    by (auto simp: kv)
  show ?case
    using Cons.IH[OF rest, of "classify_dest sm c kv"] pv
    by (auto simp: kv classify_dest_def is_added_def)
qed

lemma keyed_paths:
  "\<forall>kv\<in>set xs. e_path (snd kv) = fst kv \<Longrightarrow> map e_path (map snd (filter P xs)) = map fst (filter P xs)"
  by (induction xs) auto

lemma buckets_compareFiles:
  "additions (compareFiles A B cc) = map snd (filter (is_added (build_map B)) (build_map A))"
  "map m_source (modifications (compareFiles A B cc))
     = map snd (filter (is_modified (build_map B) cc) (build_map A))"
  "deletions (compareFiles A B cc) = map snd (filter (is_added (build_map A)) (build_map B))"
  "unchanged (compareFiles A B cc) = map snd (filter (is_unchanged (build_map B) cc) (build_map A))"
proof -
  have b: "\<forall>kv\<in>set (build_map B). e_path (snd kv) = fst kv"
    using build_map_keyed by auto
  note s = fold_source[of "build_map B" cc
      "\<lparr>additions = [], modifications = [], deletions = [], unchanged = []\<rparr>" "build_map A"]
  note d = fold_dest[OF b, of "build_map A"]
  show "additions (compareFiles A B cc) = map snd (filter (is_added (build_map B)) (build_map A))"
    unfolding compareFiles_def Let_def using s d by simp
  show "map m_source (modifications (compareFiles A B cc))
     = map snd (filter (is_modified (build_map B) cc) (build_map A))"
    unfolding compareFiles_def Let_def using s d by simp
  show "deletions (compareFiles A B cc) = map snd (filter (is_added (build_map A)) (build_map B))"
    unfolding compareFiles_def Let_def using s d by simp
  show "unchanged (compareFiles A B cc) = map snd (filter (is_unchanged (build_map B) cc) (build_map A))"
    unfolding compareFiles_def Let_def using s d by simp
qed

lemma bucket_paths_compareFiles:
  "bucket_paths (compareFiles A B cc) =
     map fst (filter (is_added (build_map B)) (build_map A))
     @ map fst (filter (is_modified (build_map B) cc) (build_map A))
     @ map fst (filter (is_added (build_map A)) (build_map B))
     @ map fst (filter (is_unchanged (build_map B) cc) (build_map A))"
proof -
  have a: "\<forall>kv\<in>set (build_map A). e_path (snd kv) = fst kv"
    using build_map_keyed by auto
  have b: "\<forall>kv\<in>set (build_map B). e_path (snd kv) = fst kv"
    using build_map_keyed by auto
  have "map (e_path \<circ> m_source) (modifications (compareFiles A B cc))
          = map e_path (map m_source (modifications (compareFiles A B cc)))" by simp
  then show ?thesis
    unfolding bucket_paths_def
    by (simp only: buckets_compareFiles keyed_paths[OF a] keyed_paths[OF b])
qed

lemma source_cases:
  "is_added dm kv \<and> \<not> is_modified dm cc kv \<and> \<not> is_unchanged dm cc kv
   \<or> \<not> is_added dm kv \<and> is_modified dm cc kv \<and> \<not> is_unchanged dm cc kv
   \<or> \<not> is_added dm kv \<and> \<not> is_modified dm cc kv \<and> is_unchanged dm cc kv"
  by (cases "map_of dm (fst kv)") (auto simp: is_added_def is_modified_def is_unchanged_def)

lemma is_added_iff: "is_added dm kv \<longleftrightarrow> fst kv \<notin> fst ` set dm"
  by (simp add: is_added_def map_of_eq_None_iff)

lemma keys_filter_disjoint:
  assumes "distinct (map fst xs)" and "\<And>x. x \<in> set xs \<Longrightarrow> \<not> (P x \<and> Q x)"
  shows "set (map fst (filter P xs)) \<inter> set (map fst (filter Q xs)) = {}"
proof -
  from assms(1) have inj: "inj_on fst (set xs)" by (simp add: distinct_map)
  show ?thesis
  proof (rule ccontr)
    assume "\<not> ?thesis"
    then obtain x y where x: "x \<in> set xs" "P x" and y: "y \<in> set xs" "Q y" and e: "fst x = fst y"
      by auto
    from inj x(1) y(1) e have "x = y" by (auto dest: inj_onD)
    with x y assms(2) show False by blast
  qed
qed

lemma keys_filter_distinct: "distinct (map fst xs) \<Longrightarrow> distinct (map fst (filter P xs))"
  by (simp add: distinct_map_filter)

lemma mem_keys_filter: "kv \<in> set xs \<Longrightarrow> P kv \<Longrightarrow> fst kv \<in> set (map fst (filter P xs))"
  by force

lemma distinct_four:
  assumes "distinct a" "distinct b" "distinct c" "distinct d"
    and "set a \<inter> set b = {}" "set a \<inter> set d = {}" "set b \<inter> set d = {}"
    and "set c \<inter> S = {}" "set a \<subseteq> S" "set b \<subseteq> S" "set d \<subseteq> S"
  shows "distinct (a @ b @ c @ d)"
  using assms by auto

lemma find_app:
  "List.find P (xs @ ys) = (case List.find P xs of Some x \<Rightarrow> Some x | None \<Rightarrow> List.find P ys)"
  by (induction xs) auto

lemma build_map_last_aux:
  "map_of (foldl (\<lambda>m file. AList.update (e_path file) file m) m files) p =
     (case List.find (\<lambda>f. e_path f = p) (rev files) of Some f \<Rightarrow> Some f | None \<Rightarrow> map_of m p)"
proof (induction files arbitrary: m)
  case Nil then show ?case by simp
next
  case (Cons f fs)
  show ?case
    by (simp add: Cons.IH update_conv' find_app split: option.splits)
qed

lemma build_map_last: "map_of (build_map files) p = last_with_path files p"
  unfolding build_map_def last_with_path_def
  by (simp add: build_map_last_aux split: option.splits)

lemma build_map_value_last:
  "kv \<in> set (build_map files) \<Longrightarrow> last_with_path files (e_path (snd kv)) = Some (snd kv)"
proof -
  assume m: "kv \<in> set (build_map files)"
  then have "e_path (snd kv) = fst kv" using build_map_keyed[of "fst kv" "snd kv"] by simp
  moreover have "map_of (build_map files) (fst kv) = Some (snd kv)"
    using m build_map_distinct[of files] by simp
  ultimately show ?thesis by (simp add: build_map_last)
qed

lemma values_filter_last:
  "set (map snd (filter P (build_map files))) \<subseteq> {e. last_with_path files (e_path e) = Some e}"
  using build_map_value_last by auto

text \<open>
  C1. The paths of the four buckets, taken together, are pairwise distinct and are exactly
  the paths that occur in the source list or in the destination list: every such path is
  in exactly one bucket, once, and no bucket holds a path from outside. The entries in the
  buckets are the last entries of their list for their path (last write wins).
\<close>

theorem compareFiles_partition:
  "distinct (bucket_paths (compareFiles A B cc))
   \<and> set (bucket_paths (compareFiles A B cc)) = e_path ` set A \<union> e_path ` set B
   \<and> set (additions (compareFiles A B cc)) \<union> set (unchanged (compareFiles A B cc))
        \<union> set (map m_source (modifications (compareFiles A B cc)))
       \<subseteq> {e. last_with_path A (e_path e) = Some e}
   \<and> set (deletions (compareFiles A B cc))
        \<union> set (map m_destination (modifications (compareFiles A B cc)))
       \<subseteq> {e. last_with_path B (e_path e) = Some e}"
proof -
  let ?sm = "build_map A" and ?dm = "build_map B"
  let ?ad = "map fst (filter (is_added ?dm) ?sm)"
  let ?mo = "map fst (filter (is_modified ?dm cc) ?sm)"
  let ?de = "map fst (filter (is_added ?sm) ?dm)"
  let ?un = "map fst (filter (is_unchanged ?dm cc) ?sm)"
  have dA: "distinct (map fst ?sm)" and dB: "distinct (map fst ?dm)"
    by (rule build_map_distinct)+
  have d1: "distinct ?ad" "distinct ?mo" "distinct ?de" "distinct ?un"
    using dA dB by (simp_all add: keys_filter_distinct)
  have am: "set ?ad \<inter> set ?mo = {}"
    using source_cases[of ?dm _ cc] by (intro keys_filter_disjoint[OF dA]) blast
  have au: "set ?ad \<inter> set ?un = {}"
    using source_cases[of ?dm _ cc] by (intro keys_filter_disjoint[OF dA]) blast
  have mu: "set ?mo \<inter> set ?un = {}"
    using source_cases[of ?dm _ cc] by (intro keys_filter_disjoint[OF dA]) blast
  have de_sub: "set ?de \<inter> fst ` set ?sm = {}"
    by (auto simp: is_added_iff)
  have src_sub: "set ?ad \<subseteq> fst ` set ?sm" "set ?mo \<subseteq> fst ` set ?sm" "set ?un \<subseteq> fst ` set ?sm"
    by auto
  have dist: "distinct (?ad @ ?mo @ ?de @ ?un)"
    by (rule distinct_four[OF d1 am au mu de_sub src_sub])
  have src_all: "set ?ad \<union> set ?mo \<union> set ?un = fst ` set ?sm"
  proof
    show "set ?ad \<union> set ?mo \<union> set ?un \<subseteq> fst ` set ?sm" using src_sub by blast
    show "fst ` set ?sm \<subseteq> set ?ad \<union> set ?mo \<union> set ?un"
    proof
      fix k assume "k \<in> fst ` set ?sm"
      then obtain kv where kv: "kv \<in> set ?sm" "fst kv = k" by auto
      from source_cases[of ?dm kv cc]
      have "is_added ?dm kv \<or> is_modified ?dm cc kv \<or> is_unchanged ?dm cc kv" by blast
      then have "fst kv \<in> set ?ad \<union> set ?mo \<union> set ?un"
        using mem_keys_filter[OF kv(1)] by blast
      then show "k \<in> set ?ad \<union> set ?mo \<union> set ?un" by (simp only: kv(2))
    qed
  qed
  have de_eq: "set ?de = fst ` set ?dm - fst ` set ?sm"
    by (auto simp: is_added_iff image_iff)
  have "set (?ad @ ?mo @ ?de @ ?un) = fst ` set ?sm \<union> fst ` set ?dm"
    using src_all de_eq by auto
  then have sets: "set (?ad @ ?mo @ ?de @ ?un) = e_path ` set A \<union> e_path ` set B"
    by (simp only: build_map_keys)
  have p1: "distinct (bucket_paths (compareFiles A B cc))"
    and p2: "set (bucket_paths (compareFiles A B cc)) = e_path ` set A \<union> e_path ` set B"
    unfolding bucket_paths_compareFiles using dist sets by simp_all
  have p3: "set (additions (compareFiles A B cc)) \<union> set (unchanged (compareFiles A B cc))
        \<union> set (map m_source (modifications (compareFiles A B cc)))
       \<subseteq> {e. last_with_path A (e_path e) = Some e}"
    unfolding buckets_compareFiles using values_filter_last[of _ A] by blast
  have keyedB: "\<forall>kv\<in>set ?dm. e_path (snd kv) = fst kv"
    using build_map_keyed by auto
  have "set (map m_destination (modifications (compareFiles A B cc)))
       \<subseteq> {d. map_of ?dm (e_path d) = Some d}"
    unfolding compareFiles_def Let_def
    using fold_source_dest[OF keyedB, of cc
        "\<lparr>additions = [], modifications = [], deletions = [], unchanged = []\<rparr>" ?sm]
      fold_dest[OF keyedB, of ?sm]
    by simp
  then have p4: "set (deletions (compareFiles A B cc))
        \<union> set (map m_destination (modifications (compareFiles A B cc)))
       \<subseteq> {e. last_with_path B (e_path e) = Some e}"
    unfolding buckets_compareFiles using values_filter_last[of _ B]
    by (simp add: build_map_last)
  from p1 p2 p3 p4 show ?thesis by blast
qed

subsection \<open>The plan is ordered by priority\<close>

lemma foldl_snoc_map: "foldl (\<lambda>acc x. acc @ [g x]) acc xs = acc @ map g xs"
  by (induction xs arbitrary: acc) auto

lemma syncActions_eq:
  "syncActions c =
     map (\<lambda>file. Create file (if e_isFolder file then 1 else 2)) (additions c)
     @ map (\<lambda>m. Update (m_source m) (m_destination m) (m_reason m)
                   (if e_isFolder (m_source m) then 1 else 2)) (modifications c)
     @ map (\<lambda>file. Delete file (if e_isFolder file then 3 else 2)) (deletions c)"
  unfolding syncActions_def Let_def by (simp add: foldl_snoc_map)

lemma syncActions_priority: "a \<in> set (syncActions c) \<Longrightarrow> priority a = priority_rule a"
  unfolding syncActions_eq by auto

lemma sorted_priority_index:
  assumes "sorted (map priority plan)" "i < length plan" "j < length plan"
    and "priority (plan ! i) < priority (plan ! j)"
  shows "i < j"
proof (rule ccontr)
  assume "\<not> i < j"
  then have "j \<le> i" by simp
  with assms(1,2) have "map priority plan ! j \<le> map priority plan ! i"
    by (intro sorted_nth_mono) simp_all
  with assms(2,3,4) show False by simp
qed

text \<open>
  C9. The plan is sorted by non-decreasing priority; it is a stable rearrangement of the
  actions in the order they were pushed (additions, modifications, deletions); every
  action carries the priority of its class: 1 for a folder addition or modification, 2
  for a file addition, modification or deletion, 3 for a folder deletion; and when a folder
  and a file are both additions, the folder's create action stands strictly before the
  file's.
\<close>

theorem generateSyncPlan_priority_order:
  "sorted (map priority (generateSyncPlan c))
   \<and> mset (generateSyncPlan c) = mset (syncActions c)
   \<and> (\<forall>k. filter (\<lambda>a. priority a = k) (generateSyncPlan c)
            = filter (\<lambda>a. priority a = k) (syncActions c))
   \<and> syncActions c =
       map (\<lambda>file. Create file (if e_isFolder file then 1 else 2)) (additions c)
       @ map (\<lambda>m. Update (m_source m) (m_destination m) (m_reason m)
                     (if e_isFolder (m_source m) then 1 else 2)) (modifications c)
       @ map (\<lambda>file. Delete file (if e_isFolder file then 3 else 2)) (deletions c)
   \<and> (\<forall>a \<in> set (generateSyncPlan c). priority a = priority_rule a)
   \<and> (\<forall>F f. F \<in> set (additions c) \<and> e_isFolder F \<and> f \<in> set (additions c) \<and> \<not> e_isFolder f
        \<longrightarrow> Create F 1 \<in> set (generateSyncPlan c) \<and> Create f 2 \<in> set (generateSyncPlan c)
          \<and> (\<forall>i j. i < length (generateSyncPlan c) \<and> j < length (generateSyncPlan c)
                 \<and> generateSyncPlan c ! i = Create F 1 \<and> generateSyncPlan c ! j = Create f 2
                 \<longrightarrow> i < j))"
proof -
  let ?plan = "generateSyncPlan c"
  have s: "sorted (map priority ?plan)"
    unfolding generateSyncPlan_def by simp
  have m: "mset ?plan = mset (syncActions c)"
    unfolding generateSyncPlan_def by simp
  have st: "\<forall>k. filter (\<lambda>a. priority a = k) ?plan = filter (\<lambda>a. priority a = k) (syncActions c)"
    unfolding generateSyncPlan_def by (simp add: sort_key_stable)
  have setp: "set ?plan = set (syncActions c)"
    unfolding generateSyncPlan_def by simp
  have pr: "\<forall>a \<in> set ?plan. priority a = priority_rule a"
    unfolding setp using syncActions_priority by blast
  have ff: "Create F 1 \<in> set ?plan \<and> Create f 2 \<in> set ?plan
          \<and> (\<forall>i j. i < length ?plan \<and> j < length ?plan
                 \<and> ?plan ! i = Create F 1 \<and> ?plan ! j = Create f 2 \<longrightarrow> i < j)"
    if h: "F \<in> set (additions c) \<and> e_isFolder F \<and> f \<in> set (additions c) \<and> \<not> e_isFolder f"
    for F f
  proof -
    have "Create F 1 \<in> set (syncActions c)" "Create f 2 \<in> set (syncActions c)"
      unfolding syncActions_eq using h by (auto simp: image_iff)
    moreover have "i < j"
      if "i < length ?plan \<and> j < length ?plan \<and> ?plan ! i = Create F 1 \<and> ?plan ! j = Create f 2"
      for i j
      using sorted_priority_index[OF s, of i j] that by simp
    ultimately show ?thesis unfolding setp by blast
  qed
  from s m st syncActions_eq[of c] pr ff show ?thesis by blast
qed

lemma ex_plan: "generateSyncPlan ex_comparison = [Create ex_folder 1, Create ex_file 2]"
  by (simp add: generateSyncPlan_def syncActions_def ex_comparison_def ex_folder_def ex_file_def)

theorem generateSyncPlan_priority_order_witness:
  "ex_folder \<in> set (additions ex_comparison) \<and> e_isFolder ex_folder
   \<and> ex_file \<in> set (additions ex_comparison) \<and> \<not> e_isFolder ex_file
   \<and> generateSyncPlan ex_comparison = [Create ex_folder 1, Create ex_file 2]
   \<and> Create ex_folder 1 \<in> set (generateSyncPlan ex_comparison)"
  using generateSyncPlan_priority_order[of ex_comparison] ex_plan
  by (simp add: ex_comparison_def ex_folder_def ex_file_def)

subsection \<open>The order of the enumeration\<close>

text \<open>
  C3. The claim is that every folder entry stands before every file entry. The source
  keeps the folders of one level in \<^verbatim>\<open>folders\<close>, but pushes the whole result of a nested
  call, folders included, onto \<^verbatim>\<open>files\<close>. On the sample tree the enumeration returns the
  file \<^verbatim>\<open>A/f\<close> before the folder \<^verbatim>\<open>B/Y\<close>.
\<close>

theorem getAllFilesInFolder_file_precedes_folder:
  "entry_shape (getAllFilesInFolder 6 ''R'' True [] ex_tree)
     = Some [(''A'', True), (''B'', True), (''A/f'', False), (''B/Y'', True)]"
  by code_simp

subsection \<open>The calls of a copy task\<close>

text \<open>
  What a task, and a batch of tasks, adds to the log: the calls, the copies the store made
  among them, and what is done for each file of the batch.
\<close>

lemma copies_made_simps:
  "copies_made [] = 0"
  "copies_made (ev # evs) = (if is_copy_made ev then 1 else 0) + copies_made evs"
  "copies_made (a @ b) = copies_made a + copies_made b"
  by (simp_all add: copies_made_def)

lemma creates_made_simps:
  "creates_made [] = 0"
  "creates_made (ev # evs) = (if is_create_made ev then 1 else 0) + creates_made evs"
  "creates_made (a @ b) = creates_made a + creates_made b"
  by (simp_all add: creates_made_def)

lemma listing_failures_simps:
  "listing_failures [] = 0"
  "listing_failures (ev # evs) = (if is_listing_failure ev then 1 else 0) + listing_failures evs"
  "listing_failures (a @ b) = listing_failures a + listing_failures b"
  by (simp_all add: listing_failures_def)

lemma copy_as_effect:
  "copy_as file nm dest w = (v, w1) \<Longrightarrow>
     \<exists>r. events w1 = (CopyFile (f_id file) nm dest, r) # events w
        \<and> (is_copy_made (CopyFile (f_id file) nm dest, r) \<longleftrightarrow> (\<exists>c. v = Copied c))"
  by (auto simp: copy_as_def copyFile_def Let_def split: option.splits)

lemma deleteFile_failed:
  "deleteFile i w = (Inl err, w1) \<Longrightarrow> events w1 = (DeleteFile i, Failed err) # events w"
  by (auto simp: deleteFile_def Let_def split: option.splits)

lemma deleteFile_done:
  "deleteFile i w = (Inr u, w1) \<Longrightarrow> events w1 = (DeleteFile i, Done) # events w"
  by (auto simp: deleteFile_def Let_def split: option.splits)

lemma date_now_events: "events (snd (date_now w)) = events w"
  by (simp add: date_now_def)

lemma batch_handled_mono:
  "batch_handled cfg dest m evs f \<Longrightarrow> set evs \<subseteq> set evs' \<Longrightarrow> batch_handled cfg dest m evs' f"
  unfolding batch_handled_def by blast

lemma task_begin_effect:
  assumes "task_begin cfg dest m file w = (s, w1)"
  shows "\<exists>new. events w1 = new @ events w
       \<and> (\<forall>ev\<in>set new. task_event dest ev)
       \<and> copies_made new = (if (\<exists>c. s = Inl (Copied c)) then 1 else 0)
       \<and> ((\<exists>v. s = Inl v) \<longrightarrow> batch_handled cfg dest m new file)"
proof -
  let ?ex = "map_of m (f_name file) \<noteq> None"
  consider (skip) "?ex" "conflictResolution cfg = ''skip''"
    | (rename) "?ex" "conflictResolution cfg = ''rename''"
    | (replace) "?ex" "conflictResolution cfg = ''replace''"
    | (plain) "\<not> ?ex \<or> (conflictResolution cfg \<noteq> ''skip'' \<and> conflictResolution cfg \<noteq> ''rename''
                \<and> conflictResolution cfg \<noteq> ''replace'')"
    by blast
  then show ?thesis
  proof cases
    case skip
    with assms have "s = Inl (Skipped file)" "w1 = w" by (auto simp: task_begin_def)
    with skip show ?thesis
      by (intro exI[of _ "[]"]) (simp add: copies_made_simps batch_handled_def)
  next
    case rename
    let ?w0 = "snd (date_now w)"
    let ?nm = "rename_copy (f_name file) (fst (date_now w))"
    obtain v where c: "copy_as file ?nm dest ?w0 = (v, w1)" and s: "s = Inl v"
      using assms rename by (auto simp: task_begin_def split: prod.splits)
    from copy_as_effect[OF c] obtain r where
      r: "events w1 = (CopyFile (f_id file) ?nm dest, r) # events ?w0"
         "is_copy_made (CopyFile (f_id file) ?nm dest, r) \<longleftrightarrow> (\<exists>c. v = Copied c)" by blast
    show ?thesis
      using r s
      by (intro exI[of _ "[(CopyFile (f_id file) ?nm dest, r)]"])
         (auto simp: copies_made_simps batch_handled_def date_now_events)
  next
    case replace
    then obtain existingId where ex: "map_of m (f_name file) = Some existingId" by auto
    obtain d wd where del: "deleteFile existingId w = (d, wd)" by (cases "deleteFile existingId w")
    show ?thesis
    proof (cases d)
      case (Inl err)
      with assms replace ex del have sw: "s = Inl (CopyError (f_name file) err)" "w1 = wd"
        by (auto simp: task_begin_def)
      from deleteFile_failed del Inl have "events wd = (DeleteFile existingId, Failed err) # events w"
        by blast
      with sw replace ex show ?thesis
        by (intro exI[of _ "[(DeleteFile existingId, Failed err)]"])
           (auto simp: copies_made_simps batch_handled_def)
    next
      case (Inr u)
      with assms replace ex del have sw: "s = Inr ()" "w1 = wd"
        by (auto simp: task_begin_def)
      from deleteFile_done del Inr have "events wd = (DeleteFile existingId, Done) # events w"
        by blast
      with sw show ?thesis
        by (intro exI[of _ "[(DeleteFile existingId, Done)]"]) (auto simp: copies_made_simps)
    qed
  next
    case plain
    then obtain v where c: "copy_as file (f_name file) dest w = (v, w1)" and s: "s = Inl v"
      using assms by (auto simp: task_begin_def split: prod.splits option.splits if_splits)
    from copy_as_effect[OF c] obtain r where
      r: "events w1 = (CopyFile (f_id file) (f_name file) dest, r) # events w"
         "is_copy_made (CopyFile (f_id file) (f_name file) dest, r) \<longleftrightarrow> (\<exists>c. v = Copied c)" by blast
    show ?thesis
      using r s
      by (intro exI[of _ "[(CopyFile (f_id file) (f_name file) dest, r)]"])
         (auto simp: copies_made_simps batch_handled_def)
  qed
qed

lemma task_resume_effect:
  assumes "task_resume dest file s w = (v, w1)"
  shows "\<exists>new. events w1 = new @ events w
       \<and> (\<forall>ev\<in>set new. task_event dest ev)
       \<and> (if (\<exists>c. v = Copied c) then 1 else 0)
           = copies_made new + (if (\<exists>c. s = Inl (Copied c)) then 1 else (0::nat))
       \<and> ((\<forall>v'. s \<noteq> Inl v') \<longrightarrow> (\<exists>nm r. (CopyFile (f_id file) nm dest, r) \<in> set new))"
proof (cases s)
  case (Inl v')
  with assms have "v = v'" "w1 = w" by (auto simp: task_resume_def)
  with Inl show ?thesis by (intro exI[of _ "[]"]) (simp add: copies_made_simps)
next
  case (Inr u)
  with assms have c: "copy_as file (f_name file) dest w = (v, w1)" by (simp add: task_resume_def)
  from copy_as_effect[OF c] obtain r where
    r: "events w1 = (CopyFile (f_id file) (f_name file) dest, r) # events w"
       "is_copy_made (CopyFile (f_id file) (f_name file) dest, r) \<longleftrightarrow> (\<exists>c. v = Copied c)" by blast
  show ?thesis
    using r Inr
    by (intro exI[of _ "[(CopyFile (f_id file) (f_name file) dest, r)]"])
       (auto simp: copies_made_simps)
qed

lemma begin_tasks_effect:
  "begin_tasks cfg dest m files w = (ss, w1) \<Longrightarrow>
     \<exists>new. events w1 = new @ events w
       \<and> (\<forall>ev\<in>set new. task_event dest ev)
       \<and> length ss = length files
       \<and> copies_made new = length (filter (\<lambda>s. \<exists>c. s = Inl (Copied c)) ss)
       \<and> (\<forall>(f, s)\<in>set (zip files ss). (\<exists>v. s = Inl v) \<longrightarrow> batch_handled cfg dest m new f)"
proof (induction files arbitrary: w ss w1)
  case Nil
  then show ?case by (intro exI[of _ "[]"]) (auto simp: copies_made_simps)
next
  case (Cons fl rest)
  obtain s wa where tb: "task_begin cfg dest m fl w = (s, wa)" by (cases "task_begin cfg dest m fl w")
  obtain ss' wb where bt: "begin_tasks cfg dest m rest wa = (ss', wb)"
    by (cases "begin_tasks cfg dest m rest wa")
  from Cons.prems tb bt have res: "ss = s # ss'" "w1 = wb" by auto
  from task_begin_effect[OF tb] obtain new1 where
    n1: "events wa = new1 @ events w" "\<forall>ev\<in>set new1. task_event dest ev"
        "copies_made new1 = (if (\<exists>c. s = Inl (Copied c)) then 1 else 0)"
        "(\<exists>v. s = Inl v) \<longrightarrow> batch_handled cfg dest m new1 fl"
    by blast
  from Cons.IH[OF bt] obtain new2 where
    n2: "events wb = new2 @ events wa" "\<forall>ev\<in>set new2. task_event dest ev"
        "length ss' = length rest"
        "copies_made new2 = length (filter (\<lambda>s. \<exists>c. s = Inl (Copied c)) ss')"
        "\<forall>(f, s)\<in>set (zip rest ss'). (\<exists>v. s = Inl v) \<longrightarrow> batch_handled cfg dest m new2 f"
    by blast
  have e: "events w1 = (new2 @ new1) @ events w" using n1(1) n2(1) res by simp
  have t: "\<forall>ev\<in>set (new2 @ new1). task_event dest ev" using n1(2) n2(2) by auto
  have c: "copies_made (new2 @ new1) = length (filter (\<lambda>s. \<exists>c. s = Inl (Copied c)) ss)"
    using n1(3) n2(4) res by (simp add: copies_made_simps)
  have h: "\<forall>(f, s)\<in>set (zip (fl # rest) ss). (\<exists>v. s = Inl v) \<longrightarrow> batch_handled cfg dest m (new2 @ new1) f"
  proof (clarify)
    fix f s' v assume "(f, Inl v) \<in> set (zip (fl # rest) ss)"
    then have "(f = fl \<and> s = Inl v) \<or> (f, Inl v) \<in> set (zip rest ss')" using res by auto
    then show "batch_handled cfg dest m (new2 @ new1) f"
    proof
      assume "f = fl \<and> s = Inl v"
      with n1(4) have "batch_handled cfg dest m new1 f" by blast
      then show ?thesis by (rule batch_handled_mono) auto
    next
      assume "(f, Inl v) \<in> set (zip rest ss')"
      with n2(5) have "batch_handled cfg dest m new2 f" by blast
      then show ?thesis by (rule batch_handled_mono) auto
    qed
  qed
  show ?case using e t c h n2(3) res by (intro exI[of _ "new2 @ new1"]) simp
qed

lemma resume_tasks_effect:
  "resume_tasks dest fss w = (vs, w1) \<Longrightarrow>
     \<exists>new. events w1 = new @ events w
       \<and> (\<forall>ev\<in>set new. task_event dest ev)
       \<and> length vs = length fss
       \<and> (\<forall>x\<in>set vs. \<exists>v. x = Fulfilled v)
       \<and> length (filter copied_value vs)
           = copies_made new + length (filter (\<lambda>s. \<exists>c. s = Inl (Copied c)) (map snd fss))
       \<and> (\<forall>(f, s)\<in>set fss. (\<forall>v. s \<noteq> Inl v) \<longrightarrow> (\<exists>nm r. (CopyFile (f_id f) nm dest, r) \<in> set new))"
proof (induction fss arbitrary: w vs w1)
  case Nil
  then show ?case by (intro exI[of _ "[]"]) (auto simp: copies_made_simps)
next
  case (Cons fs rest)
  obtain fl s where fs: "fs = (fl, s)" by (cases fs)
  obtain v wa where tr: "task_resume dest fl s w = (v, wa)" by (cases "task_resume dest fl s w")
  obtain vs' wb where rt: "resume_tasks dest rest wa = (vs', wb)"
    by (cases "resume_tasks dest rest wa")
  from Cons.prems fs tr rt have res: "vs = Fulfilled v # vs'" "w1 = wb" by auto
  from task_resume_effect[OF tr] obtain new1 where
    n1: "events wa = new1 @ events w" "\<forall>ev\<in>set new1. task_event dest ev"
        "(if (\<exists>c. v = Copied c) then 1 else 0)
           = copies_made new1 + (if (\<exists>c. s = Inl (Copied c)) then 1 else (0::nat))"
        "(\<forall>v'. s \<noteq> Inl v') \<longrightarrow> (\<exists>nm r. (CopyFile (f_id fl) nm dest, r) \<in> set new1)"
    by blast
  from Cons.IH[OF rt] obtain new2 where
    n2: "events wb = new2 @ events wa" "\<forall>ev\<in>set new2. task_event dest ev"
        "length vs' = length rest" "\<forall>x\<in>set vs'. \<exists>v. x = Fulfilled v"
        "length (filter copied_value vs')
           = copies_made new2 + length (filter (\<lambda>s. \<exists>c. s = Inl (Copied c)) (map snd rest))"
        "\<forall>(f, s)\<in>set rest. (\<forall>v. s \<noteq> Inl v) \<longrightarrow> (\<exists>nm r. (CopyFile (f_id f) nm dest, r) \<in> set new2)"
    by blast
  have e: "events w1 = (new2 @ new1) @ events w" using n1(1) n2(1) res by simp
  have t: "\<forall>ev\<in>set (new2 @ new1). task_event dest ev" using n1(2) n2(2) by auto
  have cv: "copied_value (Fulfilled v) \<longleftrightarrow> (\<exists>c. v = Copied c)" by (cases v) auto
  have c: "length (filter copied_value vs)
           = copies_made (new2 @ new1)
             + length (filter (\<lambda>s. \<exists>c. s = Inl (Copied c)) (map snd (fs # rest)))"
    using n1(3) n2(5) res fs cv by (simp add: copies_made_simps split: if_splits)
  have h: "\<forall>(f, s)\<in>set (fs # rest). (\<forall>v. s \<noteq> Inl v)
             \<longrightarrow> (\<exists>nm r. (CopyFile (f_id f) nm dest, r) \<in> set (new2 @ new1))"
    using n1(4) n2(6) fs by (auto; blast)
  show ?case using e t c h n2(3,4) res by (intro exI[of _ "new2 @ new1"]) simp
qed

lemma start_tasks_effect:
  assumes "start_tasks cfg dest m files w = (vs, w1)"
  shows "\<exists>new. events w1 = new @ events w
       \<and> (\<forall>ev\<in>set new. task_event dest ev)
       \<and> length vs = length files
       \<and> (\<forall>x\<in>set vs. \<exists>v. x = Fulfilled v)
       \<and> length (filter copied_value vs) = copies_made new
       \<and> (\<forall>f\<in>set files. batch_handled cfg dest m new f)"
proof -
  obtain ss wa where bt: "begin_tasks cfg dest m files w = (ss, wa)"
    by (cases "begin_tasks cfg dest m files w")
  with assms have rt: "resume_tasks dest (zip files ss) wa = (vs, w1)" by (simp add: start_tasks_def)
  from begin_tasks_effect[OF bt] obtain new1 where
    n1: "events wa = new1 @ events w" "\<forall>ev\<in>set new1. task_event dest ev"
        "length ss = length files"
        "copies_made new1 = length (filter (\<lambda>s. \<exists>c. s = Inl (Copied c)) ss)"
        "\<forall>(f, s)\<in>set (zip files ss). (\<exists>v. s = Inl v) \<longrightarrow> batch_handled cfg dest m new1 f"
    by blast
  from resume_tasks_effect[OF rt] obtain new2 where
    n2: "events w1 = new2 @ events wa" "\<forall>ev\<in>set new2. task_event dest ev"
        "length vs = length (zip files ss)" "\<forall>x\<in>set vs. \<exists>v. x = Fulfilled v"
        "length (filter copied_value vs)
           = copies_made new2 + length (filter (\<lambda>s. \<exists>c. s = Inl (Copied c)) (map snd (zip files ss)))"
        "\<forall>(f, s)\<in>set (zip files ss). (\<forall>v. s \<noteq> Inl v)
             \<longrightarrow> (\<exists>nm r. (CopyFile (f_id f) nm dest, r) \<in> set new2)"
    by blast
  have ms: "map snd (zip files ss) = ss" using n1(3) by simp
  have e: "events w1 = (new2 @ new1) @ events w" using n1(1) n2(1) by simp
  have t: "\<forall>ev\<in>set (new2 @ new1). task_event dest ev" using n1(2) n2(2) by auto
  have c: "length (filter copied_value vs) = copies_made (new2 @ new1)"
    using n1(4) n2(5) ms by (simp add: copies_made_simps)
  have h: "\<forall>f\<in>set files. batch_handled cfg dest m (new2 @ new1) f"
  proof
    fix f assume "f \<in> set files"
    then obtain k where k: "k < length files" "files ! k = f" by (auto simp: in_set_conv_nth)
    then have z: "(f, ss ! k) \<in> set (zip files ss)"
      using n1(3) by (auto simp: set_zip)
    show "batch_handled cfg dest m (new2 @ new1) f"
    proof (cases "\<exists>v. ss ! k = Inl v")
      case True
      with n1(5) z have "batch_handled cfg dest m new1 f" by blast
      then show ?thesis by (rule batch_handled_mono) auto
    next
      case False
      with n2(6) z obtain nm r where "(CopyFile (f_id f) nm dest, r) \<in> set new2" by blast
      then show ?thesis unfolding batch_handled_def by auto
    qed
  qed
  show ?thesis using e t c h n2(3,4) n1(3) by (intro exI[of _ "new2 @ new1"]) simp
qed

subsection \<open>Names synthesised under the policy rename\<close>

lemma split_on_nonempty: "split_on c s \<noteq> []"
  by (induction s) (auto split: list.splits)

lemma split_on_no_sep: "c \<notin> set s \<Longrightarrow> split_on c s = [s]"
  by (induction s) auto

lemma split_on_sep: "c \<in> set s \<Longrightarrow> tl (split_on c s) \<noteq> []"
proof (induction s)
  case Nil then show ?case by simp
next
  case (Cons x xs)
  obtain p ps where sp: "split_on c xs = p # ps"
    using split_on_nonempty[of c xs] by (cases "split_on c xs") auto
  show ?case
  proof (cases "x = c")
    case True
    then show ?thesis by (simp add: sp)
  next
    case False
    with Cons.prems have "c \<in> set xs" by simp
    from Cons.IH[OF this] have "ps \<noteq> []" by (simp add: sp)
    with False show ?thesis by (simp add: sp)
  qed
qed

lemma last_split_on_Cons:
  "last (split_on c (x # xs)) = (if c \<in> set xs then last (split_on c xs)
                                  else if x = c then xs else x # xs)"
proof -
  obtain p ps where sp: "split_on c xs = p # ps"
    using split_on_nonempty[of c xs] by (cases "split_on c xs") auto
  show ?thesis
  proof (cases "c \<in> set xs")
    case True
    from split_on_sep[OF True] have "ps \<noteq> []" by (simp add: sp)
    with True show ?thesis by (simp add: sp)
  next
    case False
    from split_on_no_sep[OF False] have "p = xs" "ps = []" by (simp_all add: sp)
    with False show ?thesis by (simp add: sp)
  qed
qed

lemma last_split_on_no_sep: "c \<notin> set s \<Longrightarrow> last (split_on c s) = s"
  by (simp add: split_on_no_sep)

lemma last_split_on_append: "last (split_on c (xs @ c # ys)) = last (split_on c ys)"
proof (induction xs)
  case Nil
  show ?case
    using last_split_on_Cons[of c c ys] last_split_on_no_sep[of c ys]
    by (cases "c \<in> set ys") (simp_all del: split_on.simps)
next
  case (Cons x xs)
  have "last (split_on c (x # (xs @ c # ys))) = last (split_on c (xs @ c # ys))"
    by (subst last_split_on_Cons) simp
  then show ?case using Cons.IH by (simp del: split_on.simps)
qed

lemma last_split_on_clean: "c \<notin> set (last (split_on c s))"
proof (induction s)
  case Nil then show ?case by simp
next
  case (Cons x xs)
  then show ?case by (simp only: last_split_on_Cons split: if_splits) auto
qed

lemma lastIndexOf_snoc:
  "lastIndexOf c (s @ [x]) = (if x = c then int (length s) else lastIndexOf c s)"
proof -
  have "filter (\<lambda>i. (s @ [x]) ! i = c) (rev [0..<length s]) = filter (\<lambda>i. s ! i = c) (rev [0..<length s])"
    by (rule filter_cong) (auto simp: nth_append)
  then show ?thesis by (simp add: lastIndexOf_def)
qed

lemma lastIndexOf_bounds:
  "c \<in> set s \<Longrightarrow> 0 \<le> lastIndexOf c s \<and> lastIndexOf c s < int (length s)"
proof (induction s rule: rev_induct)
  case Nil then show ?case by simp
next
  case (snoc x xs)
  then show ?case by (auto simp: lastIndexOf_snoc)
qed

lemma split_at_last_sep:
  "c \<in> set s \<Longrightarrow> s = take (nat (lastIndexOf c s)) s @ c # last (split_on c s)"
proof (induction s rule: rev_induct)
  case Nil then show ?case by simp
next
  case (snoc x xs)
  show ?case
  proof (cases "x = c")
    case True
    have "last (split_on c (xs @ [c])) = []"
      using last_split_on_append[of c xs "[]"] by simp
    with True show ?thesis by (simp add: lastIndexOf_snoc)
  next
    case False
    with snoc.prems have m: "c \<in> set xs" by simp
    from lastIndexOf_bounds[OF m] have b: "nat (lastIndexOf c xs) \<le> length xs" by linarith
    define pre where "pre = take (nat (lastIndexOf c xs)) xs"
    define e where "e = last (split_on c xs)"
    have xs: "xs = pre @ c # e"
      unfolding pre_def e_def using snoc.IH[OF m] .
    have clean: "c \<notin> set (e @ [x])"
      unfolding e_def using False last_split_on_clean[of c xs] by simp
    have e1: "xs @ [x] = pre @ c # (e @ [x])" by (subst xs) simp
    then have "last (split_on c (xs @ [x])) = last (split_on c (pre @ c # (e @ [x])))"
      by (rule arg_cong)
    also have "\<dots> = last (split_on c (e @ [x]))" by (rule last_split_on_append)
    also have "\<dots> = e @ [x]" by (rule last_split_on_no_sep[OF clean])
    finally have l: "last (split_on c (xs @ [x])) = e @ [x]" .
    have "take (nat (lastIndexOf c xs)) (xs @ [x]) = pre"
      unfolding pre_def using b by simp
    then have "take (nat (lastIndexOf c (xs @ [x]))) (xs @ [x]) @ c # last (split_on c (xs @ [x]))
               = pre @ c # (e @ [x])"
      using False l by (simp add: lastIndexOf_snoc)
    also have "\<dots> = xs @ [x]" by (rule e1[symmetric])
    finally show ?thesis by simp
  qed
qed

lemma name_parts:
  "CHR ''.'' \<in> set fileName \<Longrightarrow> fileName = baseName_of fileName @ ''.'' @ extension_of fileName"
  using split_at_last_sep[of "CHR ''.''" fileName] by (simp add: baseName_of_def extension_of_def)

lemma string_of_nat_nonempty: "string_of_nat n \<noteq> []"
  by (subst string_of_nat.simps) simp

lemma string_of_int_nonempty: "string_of_int i \<noteq> []"
  by (simp add: string_of_int_def string_of_nat_nonempty)

lemma rename_copy_longer: "length fileName < length (rename_copy fileName t)"
proof (cases "CHR ''.'' \<in> set fileName")
  case True
  from name_parts[OF True]
  have "length fileName = length (baseName_of fileName) + 1 + length (extension_of fileName)"
    by (metis append_Cons append_Nil length_append length_Cons One_nat_def add.assoc plus_1_eq_Suc)
  then show ?thesis by (simp add: rename_copy_def Let_def)
next
  case False
  then show ?thesis by (simp add: rename_copy_def Let_def extension_of_def baseName_of_def)
qed

lemma extension_of_clean: "CHR ''.'' \<notin> set (extension_of fileName)"
  by (simp add: extension_of_def last_split_on_clean)

lemma rename_copy_extension:
  assumes "extension_of fileName \<noteq> []"
  shows "extension_of (rename_copy fileName t) = extension_of fileName"
proof -
  let ?pre = "baseName_of fileName @ ''_copy_'' @ string_of_int t"
  have r: "rename_copy fileName t = ?pre @ CHR ''.'' # extension_of fileName"
    using assms by (simp add: rename_copy_def Let_def)
  have "last (split_on CHR ''.'' (?pre @ CHR ''.'' # extension_of fileName)) = extension_of fileName"
    using last_split_on_append[of "CHR ''.''" ?pre "extension_of fileName"]
      last_split_on_no_sep[OF extension_of_clean, of fileName] by simp
  then show ?thesis unfolding r by (simp add: extension_of_def[of "_ @ _"])
qed

lemma copy_task_rename:
  assumes "conflictResolution cfg = ''rename''" and "map_of existingFileMap (f_name file) \<noteq> None"
  shows "\<exists>r. events (snd (copy_task cfg dest existingFileMap file w))
           = (CopyFile (f_id file) (rename_copy (f_name file) (clock w (ticks w))) dest, r) # events w"
proof -
  let ?nm = "rename_copy (f_name file) (clock w (ticks w))"
  let ?w1 = "w\<lparr>ticks := Suc (ticks w)\<rparr>"
  obtain v w2 where c: "copy_as file ?nm dest ?w1 = (v, w2)" by (cases "copy_as file ?nm dest ?w1")
  from copy_as_effect[OF c] obtain r where
    r: "events w2 = (CopyFile (f_id file) ?nm dest, r) # events ?w1" by blast
  have "copy_task cfg dest existingFileMap file w = (v, w2)"
    using assms c by (simp add: copy_task_def task_begin_def task_resume_def date_now_def)
  with r show ?thesis by simp
qed

lemma ex_extension: "extension_of ''a.txt'' = ''txt''"
  by (simp add: extension_of_def)

text \<open>
  C8, as stated, fails. The claim is that the synthesised name differs from every name in
  the pre-fetched set of existing names. Nothing in the source compares the new name with
  that set: here the set holds \<^verbatim>\<open>a.txt\<close> and \<^verbatim>\<open>a_copy_1700000000000.txt\<close>, the clock reads
  1700000000000, and the copy of \<^verbatim>\<open>a.txt\<close> is sent under the second name.
\<close>

theorem rename_hits_existing_name:
  "(case getExistingFiles ''D'' [''a.txt'', ''a_copy_1700000000000.txt''] ex_renamed of
      (existingFileMap, w1) \<Rightarrow>
        (case copy_task (ex_config (Some ''S'') ''rename'') ''D'' existingFileMap
                (mk_file ''s1'' ''a.txt'' ''text/plain'' ''S'') w1 of
           (Copied c, w2) \<Rightarrow> newName c = ''a_copy_1700000000000.txt''
                               \<and> newName c \<in> set (map fst existingFileMap)
         | (other, w2) \<Rightarrow> False))"
  by (simp add: getExistingFiles_def listFilesInPage_def ex_renamed_def mk_world_def mk_file_def
        names_query_def matches_def new_Map_def copy_task_def task_begin_def task_resume_def
        copy_as_def ex_config_def date_now_def
        rename_copy_def extension_of_def baseName_of_def lastIndexOf_def copyFile_def fresh_id_def
        string_of_int_def string_of_nat.simps folderMime_def upt_rec Let_def)

text \<open>
  C8, amended. Under the policy \<^verbatim>\<open>rename\<close>, for a file whose name is in the pre-fetched
  map, the one call the task sends is a copy under the synthesised name; that name differs
  from the colliding name itself, and when the colliding name has a non-empty extension
  the synthesised name has the same extension.
\<close>

theorem rename_policy_name:
  assumes "conflictResolution cfg = ''rename''" and "map_of existingFileMap (f_name file) \<noteq> None"
  shows "(\<exists>r. events (snd (copy_task cfg dest existingFileMap file w))
           = (CopyFile (f_id file) (rename_copy (f_name file) (clock w (ticks w))) dest, r) # events w)
       \<and> rename_copy (f_name file) (clock w (ticks w)) \<noteq> f_name file
       \<and> (extension_of (f_name file) \<noteq> []
            \<longrightarrow> extension_of (rename_copy (f_name file) (clock w (ticks w)))
                 = extension_of (f_name file))"
proof -
  have "rename_copy (f_name file) (clock w (ticks w)) \<noteq> f_name file"
    using rename_copy_longer[of "f_name file" "clock w (ticks w)"] by auto
  then show ?thesis
    using copy_task_rename[OF assms] rename_copy_extension by blast
qed

theorem rename_policy_name_witness:
  "conflictResolution (ex_config (Some ''S'') ''rename'') = ''rename''
   \<and> map_of [(''a.txt'', ''e1'')] (f_name (mk_file ''s1'' ''a.txt'' ''text/plain'' ''S'')) \<noteq> None
   \<and> extension_of (f_name (mk_file ''s1'' ''a.txt'' ''text/plain'' ''S'')) \<noteq> []
   \<and> extension_of (rename_copy (f_name (mk_file ''s1'' ''a.txt'' ''text/plain'' ''S''))
                       (clock ex_renamed (ticks ex_renamed))) = ''txt''"
proof -
  have h1: "conflictResolution (ex_config (Some ''S'') ''rename'') = ''rename''"
    by (simp add: ex_config_def)
  have h2: "map_of [(''a.txt'', ''e1'')] (f_name (mk_file ''s1'' ''a.txt'' ''text/plain'' ''S'')) \<noteq> None"
    by (simp add: mk_file_def)
  have h3: "extension_of (f_name (mk_file ''s1'' ''a.txt'' ''text/plain'' ''S'')) = ''txt''"
    by (simp add: mk_file_def ex_extension)
  show ?thesis
    using rename_policy_name[OF h1 h2, of "''D''" ex_renamed] h1 h2 h3 by simp
qed

subsection \<open>The policy skip\<close>

lemma limitConcurrency_drop: "0 < maxConc \<Longrightarrow> limitConcurrency i tasks maxConc = Some (drop i tasks)"
proof (induction i tasks maxConc rule: limitConcurrency.induct)
  case (1 i tasks maxConc)
  show ?case
  proof (cases "i < length tasks")
    case True
    with 1 have r: "limitConcurrency (i + maxConc) tasks maxConc = Some (drop (i + maxConc) tasks)"
      by simp
    have d: "drop (i + maxConc) tasks = drop maxConc (drop i tasks)"
      by (simp add: add.commute)
    have "take maxConc (drop i tasks) @ drop (i + maxConc) tasks = drop i tasks"
      unfolding d by (rule append_take_drop_id)
    then show ?thesis
      using True 1(2) r by (subst limitConcurrency.simps) simp
  next
    case False
    then show ?thesis by (subst limitConcurrency.simps) simp
  qed
qed

lemma task_begin_skip:
  assumes "conflictResolution cfg = ''skip''" and "task_begin cfg dest m file w = (s, w1)"
  shows "(map_of m (f_name file) \<noteq> None \<longrightarrow> s = Inl (Skipped file) \<and> w1 = w)
       \<and> (map_of m (f_name file) = None \<longrightarrow>
            (\<exists>v r. s = Inl v \<and> events w1 = (CopyFile (f_id file) (f_name file) dest, r) # events w))"
proof (cases "map_of m (f_name file) = None")
  case False
  with assms show ?thesis by (auto simp: task_begin_def)
next
  case True
  with assms obtain v where c: "copy_as file (f_name file) dest w = (v, w1)" and s: "s = Inl v"
    by (auto simp: task_begin_def split: prod.splits)
  from copy_as_effect[OF c] True s show ?thesis by blast
qed

lemma begin_tasks_skip:
  assumes "conflictResolution cfg = ''skip''"
  shows "begin_tasks cfg dest m files w = (ss, w1) \<Longrightarrow>
         \<exists>new. events w1 = new @ events w
          \<and> (\<forall>ev\<in>set new. \<exists>i nm r. ev = (CopyFile i nm dest, r) \<and> map_of m nm = None)
          \<and> length ss = length files
          \<and> (\<forall>k<length files. \<exists>v. ss ! k = Inl v
                 \<and> (map_of m (f_name (files ! k)) \<noteq> None \<longrightarrow> v = Skipped (files ! k)))"
proof (induction files arbitrary: w ss w1)
  case Nil
  then show ?case by simp
next
  case (Cons fl rest)
  obtain s wa where tb: "task_begin cfg dest m fl w = (s, wa)" by (cases "task_begin cfg dest m fl w")
  obtain ss' wb where bt: "begin_tasks cfg dest m rest wa = (ss', wb)"
    by (cases "begin_tasks cfg dest m rest wa")
  from Cons.prems tb bt have res: "ss = s # ss'" "w1 = wb" by auto
  from Cons.IH[OF bt] obtain new where
    n: "events wb = new @ events wa"
       "\<forall>ev\<in>set new. \<exists>i nm r. ev = (CopyFile i nm dest, r) \<and> map_of m nm = None"
       "length ss' = length rest"
       "\<forall>k<length rest. \<exists>v. ss' ! k = Inl v
            \<and> (map_of m (f_name (rest ! k)) \<noteq> None \<longrightarrow> v = Skipped (rest ! k))"
    by blast
  note ts = task_begin_skip[OF assms tb]
  show ?case
  proof (cases "map_of m (f_name fl) = None")
    case True
    with ts obtain v r where
      v: "s = Inl v" "events wa = (CopyFile (f_id fl) (f_name fl) dest, r) # events w" by blast
    have e: "events w1 = (new @ [(CopyFile (f_id fl) (f_name fl) dest, r)]) @ events w"
      using n(1) v(2) res by simp
    have a: "\<forall>ev\<in>set (new @ [(CopyFile (f_id fl) (f_name fl) dest, r)]).
               \<exists>i nm r. ev = (CopyFile i nm dest, r) \<and> map_of m nm = None"
      using n(2) True by auto
    have k: "\<forall>k<length (fl # rest). \<exists>v. ss ! k = Inl v
               \<and> (map_of m (f_name ((fl # rest) ! k)) \<noteq> None \<longrightarrow> v = Skipped ((fl # rest) ! k))"
      using n(4) True v(1) res by (auto simp: nth_Cons split: nat.splits)
    show ?thesis using e a k n(3) res
      by (intro exI[of _ "new @ [(CopyFile (f_id fl) (f_name fl) dest, r)]"]) simp
  next
    case False
    with ts have vw: "s = Inl (Skipped fl)" "wa = w" by auto
    have k: "\<forall>k<length (fl # rest). \<exists>v. ss ! k = Inl v
               \<and> (map_of m (f_name ((fl # rest) ! k)) \<noteq> None \<longrightarrow> v = Skipped ((fl # rest) ! k))"
      using n(4) vw res by (auto simp: nth_Cons split: nat.splits)
    show ?thesis using n(1,2,3) k vw res by (intro exI[of _ new]) simp
  qed
qed

lemma resume_tasks_ended:
  "length files = length ss \<Longrightarrow> \<forall>s\<in>set ss. \<exists>v. s = Inl v \<Longrightarrow>
     resume_tasks dest (zip files ss) w = (map (\<lambda>s. Fulfilled (projl s)) ss, w)"
proof (induction files ss rule: list_induct2)
  case Nil
  then show ?case by simp
next
  case (Cons fl files s ss)
  then obtain v where "s = Inl v" by auto
  with Cons show ?case by (simp add: task_resume_def)
qed

lemma start_tasks_skip:
  assumes "conflictResolution cfg = ''skip''"
  shows "\<exists>new. events (snd (start_tasks cfg dest m files w)) = new @ events w
          \<and> (\<forall>ev\<in>set new. \<exists>i nm r. ev = (CopyFile i nm dest, r) \<and> map_of m nm = None)
          \<and> length (fst (start_tasks cfg dest m files w)) = length files
          \<and> (\<forall>k<length files. map_of m (f_name (files ! k)) \<noteq> None
                 \<longrightarrow> fst (start_tasks cfg dest m files w) ! k = Fulfilled (Skipped (files ! k)))"
proof -
  obtain ss wa where bt: "begin_tasks cfg dest m files w = (ss, wa)"
    by (cases "begin_tasks cfg dest m files w")
  from begin_tasks_skip[OF assms bt] obtain new where
    n: "events wa = new @ events w"
       "\<forall>ev\<in>set new. \<exists>i nm r. ev = (CopyFile i nm dest, r) \<and> map_of m nm = None"
       "length ss = length files"
       "\<forall>k<length files. \<exists>v. ss ! k = Inl v
            \<and> (map_of m (f_name (files ! k)) \<noteq> None \<longrightarrow> v = Skipped (files ! k))"
    by blast
  have all: "\<forall>s\<in>set ss. \<exists>v. s = Inl v"
  proof
    fix s assume "s \<in> set ss"
    then obtain k where "k < length ss" "ss ! k = s" by (auto simp: in_set_conv_nth)
    with n(3,4) show "\<exists>v. s = Inl v" by metis
  qed
  have st: "start_tasks cfg dest m files w = (map (\<lambda>s. Fulfilled (projl s)) ss, wa)"
    using bt resume_tasks_ended[OF n(3)[symmetric] all] by (simp add: start_tasks_def)
  have k: "\<forall>k<length files. map_of m (f_name (files ! k)) \<noteq> None
             \<longrightarrow> map (\<lambda>s. Fulfilled (projl s)) ss ! k = Fulfilled (Skipped (files ! k))"
  proof (intro allI impI)
    fix k assume k: "k < length files" and ex: "map_of m (f_name (files ! k)) \<noteq> None"
    with n(4) have "ss ! k = Inl (Skipped (files ! k))" by auto
    with k n(3) show "map (\<lambda>s. Fulfilled (projl s)) ss ! k = Fulfilled (Skipped (files ! k))"
      by simp
  qed
  show ?thesis unfolding st using n(1,2,3) k by (intro exI[of _ new]) simp
qed

text \<open>
  A task that ends with the answer to its first call does in a batch what it does alone;
  and a batch of one file is the task of that file, run alone.
\<close>

lemma copy_task_begin:
  "task_begin cfg dest m file w = (Inl v, w1) \<Longrightarrow> copy_task cfg dest m file w = (v, w1)"
  by (simp add: copy_task_def task_resume_def)

lemma start_tasks_single:
  "start_tasks cfg dest m [file] w
     = (case copy_task cfg dest m file w of (v, w1) \<Rightarrow> ([Fulfilled v], w1))"
  by (simp add: start_tasks_def copy_task_def split: prod.splits)



text \<open>
  C7, as stated, fails. The claim is about every candidate whose name already exists in the
  destination folder. The task looks the name up in the map fetched before the batch, and
  \<^verbatim>\<open>getExistingFiles\<close> answers a failed query with an empty map: here the destination holds
  \<^verbatim>\<open>a.txt\<close>, the query by names fails, and \<^verbatim>\<open>a.txt\<close> is copied all the same.
\<close>

theorem skip_copies_when_check_fails:
  "map_option (\<lambda>(out, res, w). (success out, filter is_copy (events w)))
     (run 1 (ex_config (Some ''S'') ''skip'') ex_unchecked)
    = Some (True, [(CopyFile ''a'' ''a.txt'' ''D'', Made ''new0'')])
   \<and> list_ex (\<lambda>f. f_name f = ''a.txt'' \<and> f_parents f = [''D''] \<and> \<not> f_trashed f)
        (drive ex_unchecked)"
  by code_simp

text \<open>
  The query of \<^verbatim>\<open>getExistingFiles\<close> carries the first ten names of a page only: an eleventh
  file, \<^verbatim>\<open>n10\<close>, that exists in the destination is not in the map, and is copied.
\<close>

lemma getExistingFiles_first_ten_only:
  "map_option (\<lambda>(n, res, w). (CopyFile ''s10'' ''n10'' ''D'', Made ''new10'') \<in> set (events w))
     (copyFilesOptimized 1 (ex_config (Some ''S'') ''skip'') (Some ''S'') ''D'' (initial_results, ex_eleven))
    = Some True
   \<and> list_ex (\<lambda>f. f_name f = ''n10'' \<and> f_parents f = [''D''] \<and> \<not> f_trashed f) (drive ex_eleven)"
  by code_simp

text \<open>
  C7, amended. Under the policy \<^verbatim>\<open>skip\<close> a batch returns (for a concurrency of at least 1),
  every call it sends is a copy into the destination under a name that is not in the
  pre-fetched map, and every file whose name is in that map is answered as skipped.
\<close>

theorem skip_policy_no_copy:
  assumes "conflictResolution cfg = ''skip''" and "0 < maxConcurrency cfg"
  shows "\<exists>settled w' new.
           copyFileBatch cfg files dest existingFileMap w = Some (settled, w')
         \<and> events w' = new @ events w
         \<and> (\<forall>ev\<in>set new. \<exists>i nm r. ev = (CopyFile i nm dest, r) \<and> map_of existingFileMap nm = None)
         \<and> length settled = length files
         \<and> (\<forall>k<length files. map_of existingFileMap (f_name (files ! k)) \<noteq> None
                \<longrightarrow> settled ! k = Fulfilled (Skipped (files ! k)))"
proof -
  obtain vs w1 where st: "start_tasks cfg dest existingFileMap files w = (vs, w1)"
    by (cases "start_tasks cfg dest existingFileMap files w")
  have b: "copyFileBatch cfg files dest existingFileMap w = Some (vs, w1)"
    using limitConcurrency_drop[OF assms(2), of 0 vs] by (simp add: copyFileBatch_def st)
  show ?thesis
    using start_tasks_skip[OF assms(1), of dest existingFileMap files w] b by (simp add: st)
qed

theorem skip_policy_no_copy_witness:
  "conflictResolution (ex_config (Some ''S'') ''skip'') = ''skip''
   \<and> 0 < maxConcurrency (ex_config (Some ''S'') ''skip'')
   \<and> map_of [(''a.txt'', ''e'')] (f_name (mk_file ''a'' ''a.txt'' ''text/plain'' ''Z'')) \<noteq> None
   \<and> (\<exists>w'. copyFileBatch (ex_config (Some ''S'') ''skip'')
               [mk_file ''a'' ''a.txt'' ''text/plain'' ''Z''] ''D'' [(''a.txt'', ''e'')] ex_whole
             = Some ([Fulfilled (Skipped (mk_file ''a'' ''a.txt'' ''text/plain'' ''Z''))], w'))"
proof -
  let ?cfg = "ex_config (Some ''S'') ''skip''"
  let ?f = "mk_file ''a'' ''a.txt'' ''text/plain'' ''Z''"
  have h1: "conflictResolution ?cfg = ''skip''" by (simp add: ex_config_def)
  have h2: "0 < maxConcurrency ?cfg" by (simp add: ex_config_def)
  have h3: "map_of [(''a.txt'', ''e'')] (f_name ?f) \<noteq> None" by (simp add: mk_file_def)
  from skip_policy_no_copy[OF h1 h2, of "[?f]" "''D''" "[(''a.txt'', ''e'')]" ex_whole]
  obtain settled w' where
    s: "copyFileBatch ?cfg [?f] ''D'' [(''a.txt'', ''e'')] ex_whole = Some (settled, w')"
       "length settled = 1"
       "map_of [(''a.txt'', ''e'')] (f_name ?f) \<noteq> None \<longrightarrow> settled ! 0 = Fulfilled (Skipped ?f)"
    by auto
  from s(2,3) h3 have "settled = [Fulfilled (Skipped ?f)]"
    by (cases settled) auto
  with s(1) h1 h2 h3 show ?thesis by blast
qed

subsection \<open>The calls of a file replication\<close>

text \<open>
  What a file replication adds to the log and to the accumulator, and what it does for
  each file that its listing has to return.
\<close>

lemma limitConcurrency_all: "limitConcurrency 0 tasks maxConc = Some settled \<Longrightarrow> settled = tasks"
proof (cases "0 < maxConc")
  case True
  assume "limitConcurrency 0 tasks maxConc = Some settled"
  with limitConcurrency_drop[OF True, of 0 tasks] show ?thesis by simp
next
  case False
  assume a: "limitConcurrency 0 tasks maxConc = Some settled"
  from False a show ?thesis
    by (subst (asm) limitConcurrency.simps) (auto split: if_splits)
qed

lemma copyFileBatch_start:
  "copyFileBatch cfg files dest m w = Some (settled, w1) \<Longrightarrow>
     start_tasks cfg dest m files w = (settled, w1)"
  by (auto simp: copyFileBatch_def split: prod.splits option.splits dest: limitConcurrency_all)

lemma process_results_fold:
  "\<forall>x\<in>set vs. \<exists>v. x = Fulfilled v \<Longrightarrow> foldl process_result (res, acc) vs = (res1, acc1) \<Longrightarrow>
     filesCopied res1 = filesCopied res + length (filter copied_value vs)
     \<and> errors res1 = errors res \<and> foldersCreated res1 = foldersCreated res
     \<and> createdFolders res1 = createdFolders res"
proof (induction vs arbitrary: res acc)
  case Nil
  then show ?case by simp
next
  case (Cons x vs)
  then obtain v where x: "x = Fulfilled v" by auto
  obtain ra aa where p: "process_result (res, acc) x = (ra, aa)"
    by (cases "process_result (res, acc) x")
  have s: "filesCopied ra = filesCopied res + (if copied_value x then 1 else 0)
           \<and> errors ra = errors res \<and> foldersCreated ra = foldersCreated res
           \<and> createdFolders ra = createdFolders res"
    using p x by (cases v) auto
  from Cons.prems(2) p have "foldl process_result (ra, aa) vs = (res1, acc1)" by simp
  from Cons.IH[OF _ this] Cons.prems(1) s show ?case by simp
qed

lemma batch_processor_effect:
  assumes "batch_processor cfg dest m batch idx (tp, res, w) = Some (pr, tp1, res1, w1)"
  shows "\<exists>new. events w1 = new @ events w
       \<and> (\<forall>ev\<in>set new. task_event dest ev)
       \<and> filesCopied res1 = filesCopied res + copies_made new
       \<and> errors res1 = errors res \<and> foldersCreated res1 = foldersCreated res
       \<and> createdFolders res1 = createdFolders res
       \<and> (\<forall>f\<in>set batch. batch_handled cfg dest m new f)"
proof -
  from assms obtain settled where
    b: "copyFileBatch cfg batch dest m w = Some (settled, w1)"
    and f: "fst (foldl process_result (res, []) settled) = res1"
    by (auto simp: batch_processor_def split: option.splits prod.splits)
  from start_tasks_effect[OF copyFileBatch_start[OF b]] obtain new where
    n: "events w1 = new @ events w" "\<forall>ev\<in>set new. task_event dest ev"
       "\<forall>x\<in>set settled. \<exists>v. x = Fulfilled v"
       "length (filter copied_value settled) = copies_made new"
       "\<forall>f\<in>set batch. batch_handled cfg dest m new f"
    by blast
  obtain acc1 where "foldl process_result (res, []) settled = (res1, acc1)"
    using f by (cases "foldl process_result (res, []) settled") auto
  from process_results_fold[OF n(3) this] n show ?thesis by auto
qed

lemma processInBatches_effect:
  "processInBatches i items bs (batch_processor cfg dest m) (tp, res, w) = Some (rs, tp1, res1, w1)
   \<Longrightarrow> \<exists>new. events w1 = new @ events w
         \<and> (\<forall>ev\<in>set new. task_event dest ev)
         \<and> filesCopied res1 = filesCopied res + copies_made new
         \<and> errors res1 = errors res \<and> foldersCreated res1 = foldersCreated res
         \<and> createdFolders res1 = createdFolders res
         \<and> (\<forall>f\<in>set (drop i items). batch_handled cfg dest m new f)"
proof (induction "length items - i" arbitrary: i tp res w rs rule: less_induct)
  case less
  show ?case
  proof (cases "i < length items")
    case False
    with less.prems have "w1 = w" "res1 = res"
      by (subst (asm) processInBatches.simps, simp)+
    with False show ?thesis by (intro exI[of _ "[]"]) (simp add: copies_made_simps)
  next
    case True
    let ?batch = "take bs (drop i items)"
    from less.prems True have bs: "bs \<noteq> 0"
      by (subst (asm) processInBatches.simps) (auto split: if_splits)
    from less.prems True bs obtain pr tpa resa wa rs2 where
      p: "batch_processor cfg dest m ?batch i (tp, res, w) = Some (pr, tpa, resa, wa)"
      and rec: "processInBatches (i + bs) items bs (batch_processor cfg dest m) (tpa, resa, wa)
                  = Some (rs2, tp1, res1, w1)"
      by (subst (asm) processInBatches.simps) (auto split: option.splits prod.splits)
    from batch_processor_effect[OF p] obtain new1 where
      n1: "events wa = new1 @ events w" "\<forall>ev\<in>set new1. task_event dest ev"
          "filesCopied resa = filesCopied res + copies_made new1"
          "errors resa = errors res" "foldersCreated resa = foldersCreated res"
          "createdFolders resa = createdFolders res"
          "\<forall>f\<in>set ?batch. batch_handled cfg dest m new1 f"
      by blast
    have "length items - (i + bs) < length items - i" using True bs by simp
    from less.hyps[OF this rec] obtain new2 where
      n2: "events w1 = new2 @ events wa" "\<forall>ev\<in>set new2. task_event dest ev"
          "filesCopied res1 = filesCopied resa + copies_made new2"
          "errors res1 = errors resa" "foldersCreated res1 = foldersCreated resa"
          "createdFolders res1 = createdFolders resa"
          "\<forall>f\<in>set (drop (i + bs) items). batch_handled cfg dest m new2 f"
      by blast
    have split: "set (drop i items) = set ?batch \<union> set (drop (i + bs) items)"
    proof -
      have "drop i items = ?batch @ drop bs (drop i items)"
        by (rule append_take_drop_id[symmetric])
      then have "set (drop i items) = set ?batch \<union> set (drop bs (drop i items))"
        by (metis set_append)
      then show ?thesis by (simp add: add.commute)
    qed
    have e: "events w1 = (new2 @ new1) @ events w" using n1(1) n2(1) by simp
    have t: "\<forall>ev\<in>set (new2 @ new1). task_event dest ev" using n1(2) n2(2) by auto
    have c: "filesCopied res1 = filesCopied res + copies_made (new2 @ new1)"
      using n1(3) n2(3) by (simp add: copies_made_simps)
    have h: "\<forall>f\<in>set (drop i items). batch_handled cfg dest m (new2 @ new1) f"
    proof
      fix f assume "f \<in> set (drop i items)"
      then have "f \<in> set ?batch \<or> f \<in> set (drop (i + bs) items)" unfolding split by simp
      then show "batch_handled cfg dest m (new2 @ new1) f"
      proof
        assume "f \<in> set ?batch"
        with n1(7) have "batch_handled cfg dest m new1 f" by blast
        then show ?thesis by (rule batch_handled_mono) auto
      next
        assume "f \<in> set (drop (i + bs) items)"
        with n2(7) have "batch_handled cfg dest m new2 f" by blast
        then show ?thesis by (rule batch_handled_mono) auto
      qed
    qed
    show ?thesis using e t c h n1(4,5,6) n2(4,5,6) by (intro exI[of _ "new2 @ new1"]) simp
  qed
qed

lemma listFilesInPage_events:
  "listFilesInPage tok q sz w = (r, w1) \<Longrightarrow>
     events w1 = (ListFiles q tok sz, case r of Inl msg \<Rightarrow> Failed msg | Inr pg \<Rightarrow> Listed pg) # events w"
  by (auto simp: listFilesInPage_def Let_def split: option.splits)

lemma listFilesInPage_page:
  "listFilesInPage tok q sz w = (Inr pg, w1) \<Longrightarrow>
     p_files pg = take sz (pending tok q w)
     \<and> p_nextPageToken pg = (if sz < length (pending tok q w)
                              then Some (drop sz (pending tok q w)) else None)"
  by (auto simp: listFilesInPage_def pending_def Let_def split: option.splits)

lemma new_Map_keys_aux:
  "fst ` set (foldl (\<lambda>m kv. AList.update (fst kv) (snd kv) m) m0 pairs) = fst ` set m0 \<union> fst ` set pairs"
  by (induction pairs arbitrary: m0) (auto simp: dom_update)

lemma new_Map_None: "map_of (new_Map pairs) k = None \<longleftrightarrow> k \<notin> fst ` set pairs"
  unfolding new_Map_def using new_Map_keys_aux[of "[]" pairs] by (simp add: map_of_eq_None_iff)

lemma new_Map_Some_aux:
  "map_of (foldl (\<lambda>m kv. AList.update (fst kv) (snd kv) m) m0 pairs) k = Some v
     \<Longrightarrow> map_of m0 k = Some v \<or> (k, v) \<in> set pairs"
proof (induction pairs arbitrary: m0)
  case Nil
  then show ?case by simp
next
  case (Cons kv pairs)
  from Cons.IH[OF Cons.prems[simplified]] show ?case
    by (cases kv) (auto simp: update_conv' split: if_splits)
qed

lemma new_Map_Some: "map_of (new_Map pairs) k = Some v \<Longrightarrow> (k, v) \<in> set pairs"
  unfolding new_Map_def using new_Map_Some_aux[of "[]" pairs k v] by simp

lemma getExistingFiles_effect:
  assumes "getExistingFiles dest names w = (m, w1)"
  shows "\<exists>new. events w1 = new @ events w
        \<and> (\<forall>ev\<in>set new. \<exists>q tok sz r. ev = (ListFiles q tok sz, r) \<and> q_names q \<noteq> None)
        \<and> (\<forall>nm i. map_of m nm = Some i \<longrightarrow>
              (\<exists>q tok sz pg e. (ListFiles q tok sz, Listed pg) \<in> set new
                   \<and> q_parent q = Some dest \<and> q_names q \<noteq> None
                   \<and> e \<in> set (p_files pg) \<and> f_name e = nm \<and> f_id e = i))"
proof (cases "length names = 0")
  case True
  with assms have "w1 = w" "m = []" by (auto simp: getExistingFiles_def)
  then show ?thesis by simp
next
  case False
  let ?q = "names_query (take 10 names) dest"
  obtain r wl where l: "listFilesInPage None ?q 100 w = (r, wl)"
    by (cases "listFilesInPage None ?q 100 w")
  note e = listFilesInPage_events[OF l]
  have qn: "q_names ?q \<noteq> None" "q_parent ?q = Some dest" by (simp_all add: names_query_def)
  show ?thesis
  proof (cases r)
    case (Inl err)
    with assms False l have "w1 = wl" "m = []" by (auto simp: getExistingFiles_def)
    with e Inl qn show ?thesis
      by (intro exI[of _ "[(ListFiles ?q None 100, Failed err)]"]) simp
  next
    case (Inr pg)
    with assms False l have wm: "w1 = wl" "m = new_Map (map (\<lambda>f. (f_name f, f_id f)) (p_files pg))"
      by (auto simp: getExistingFiles_def)
    have "\<exists>e. e \<in> set (p_files pg) \<and> f_name e = nm \<and> f_id e = i" if "map_of m nm = Some i" for nm i
    proof -
      from that wm(2) have "(nm, i) \<in> set (map (\<lambda>f. (f_name f, f_id f)) (p_files pg))"
        by (auto dest: new_Map_Some)
      then show ?thesis by auto
    qed
    with e Inr qn wm(1) show ?thesis
      by (intro exI[of _ "[(ListFiles ?q None 100, Listed pg)]"]) auto
  qed
qed

lemma handled_mono:
  "handled cfg dest evs f \<Longrightarrow> set evs \<subseteq> set evs' \<Longrightarrow> handled cfg dest evs' f"
  unfolding handled_def by blast

lemma batch_handled_handled:
  assumes "batch_handled cfg dest m newp f"
    and "\<forall>nm i. map_of m nm = Some i \<longrightarrow>
              (\<exists>q tok sz pg e. (ListFiles q tok sz, Listed pg) \<in> set newg
                   \<and> q_parent q = Some dest \<and> q_names q \<noteq> None
                   \<and> e \<in> set (p_files pg) \<and> f_name e = nm \<and> f_id e = i)"
  shows "handled cfg dest (newp @ newg) f"
proof -
  from assms(1) consider
      (copy) "\<exists>nm r. (CopyFile (f_id f) nm dest, r) \<in> set newp"
    | (skip) "conflictResolution cfg = ''skip''" "map_of m (f_name f) \<noteq> None"
    | (replace) "conflictResolution cfg = ''replace''"
        "\<exists>i msg. map_of m (f_name f) = Some i \<and> (DeleteFile i, Failed msg) \<in> set newp"
    unfolding batch_handled_def by blast
  then show ?thesis
  proof cases
    case copy
    then show ?thesis unfolding handled_def by auto
  next
    case skip
    then obtain i where "map_of m (f_name f) = Some i" by auto
    with assms(2) obtain q tok sz pg e where
      "(ListFiles q tok sz, Listed pg) \<in> set newg" "q_parent q = Some dest" "q_names q \<noteq> None"
      "e \<in> set (p_files pg)" "f_name e = f_name f" by blast
    with skip(1) show ?thesis unfolding handled_def
      by (intro disjI2 exI[of _ q] exI[of _ tok] exI[of _ sz] exI[of _ pg] exI[of _ e]) simp
  next
    case replace
    then obtain i msg where i: "map_of m (f_name f) = Some i" "(DeleteFile i, Failed msg) \<in> set newp"
      by blast
    with assms(2) obtain q tok sz pg e where
      "(ListFiles q tok sz, Listed pg) \<in> set newg" "q_parent q = Some dest" "q_names q \<noteq> None"
      "e \<in> set (p_files pg)" "f_name e = f_name f" "f_id e = i" by blast
    with replace(1) i(2) show ?thesis unfolding handled_def
      by (intro disjI2 exI[of _ q] exI[of _ tok] exI[of _ sz] exI[of _ pg] exI[of _ e]) auto
  qed
qed

lemma task_event_cfo: "task_event dest ev \<Longrightarrow> cfo_event sourceId dest ev"
  by (cases "(dest, ev)" rule: task_event.cases) auto

lemma files_query_names: "q_names (files_query sourceId) = None"
  by (simp add: files_query_def)

lemma files_query_mime: "q_mime (files_query sourceId) = NotFolder"
  by (simp add: files_query_def)

lemma task_events_counts:
  "\<forall>ev\<in>set evs. task_event dest ev \<Longrightarrow> listing_failures evs = 0 \<and> creates_made evs = 0"
proof (induction evs)
  case Nil
  then show ?case by (simp add: listing_failures_simps creates_made_simps)
next
  case (Cons ev evs)
  then have "task_event dest ev" by simp
  then have "\<not> is_listing_failure ev \<and> \<not> is_create_made ev"
    by (cases "(dest, ev)" rule: task_event.cases) auto
  with Cons show ?case by (simp add: listing_failures_simps creates_made_simps)
qed

lemma names_events_counts:
  "\<forall>ev\<in>set evs. \<exists>q tok sz r. ev = (ListFiles q tok sz, r) \<and> q_names q \<noteq> None \<Longrightarrow>
     listing_failures evs = 0 \<and> creates_made evs = 0 \<and> copies_made evs = 0"
proof (induction evs)
  case Nil
  then show ?case by (simp add: listing_failures_simps creates_made_simps copies_made_simps)
next
  case (Cons ev evs)
  then obtain q tok sz r where ev: "ev = (ListFiles q tok sz, r)" "q_names q \<noteq> None" by auto
  then have "\<not> is_listing_failure ev \<and> \<not> is_create_made ev \<and> \<not> is_copy_made ev"
    by (cases r) auto
  with Cons show ?case by (simp add: listing_failures_simps creates_made_simps copies_made_simps)
qed

lemma allow_list_append: "allow_list cfg (a @ b) = allow_list cfg a @ allow_list cfg b"
  by (simp add: allow_list_def split: option.splits)

lemma allow_list_take_drop:
  "set (allow_list cfg xs) = set (allow_list cfg (take n xs)) \<union> set (allow_list cfg (drop n xs))"
proof -
  have "allow_list cfg xs = allow_list cfg (take n xs @ drop n xs)" by simp
  also have "\<dots> = allow_list cfg (take n xs) @ allow_list cfg (drop n xs)"
    by (rule allow_list_append)
  finally show ?thesis by simp
qed

lemma cfo_loop_effect:
  "cfo_loop n cfg sourceId dest tok (tp, res, w) = Some (tp1, res1, w1) \<Longrightarrow>
     \<exists>new. events w1 = new @ events w
        \<and> (\<forall>ev\<in>set new. cfo_event sourceId dest ev)
        \<and> filesCopied res1 = filesCopied res + copies_made new
        \<and> length (errors res1) = length (errors res) + listing_failures new
        \<and> (\<forall>e\<in>set (errors res1). e \<in> set (errors res) \<or> is_batch_error e)
        \<and> foldersCreated res1 = foldersCreated res \<and> createdFolders res1 = createdFolders res
        \<and> (listing_failures new = 0 \<longrightarrow>
             (\<forall>f\<in>set (allow_list cfg (pending tok (files_query sourceId) w)).
                 handled cfg dest new f))"
proof (induction n arbitrary: tok tp res w)
  case 0
  then show ?case by simp
next
  case (Suc n)
  let ?q = "files_query sourceId"
  let ?sz = "min (batchSize cfg * 2) 100"
  let ?hits = "pending tok ?q w"
  obtain r wl where l: "listFilesInPage tok ?q ?sz w = (r, wl)"
    by (cases "listFilesInPage tok ?q ?sz w")
  let ?e0 = "(ListFiles ?q tok ?sz, case r of Inl msg \<Rightarrow> Failed msg | Inr pg \<Rightarrow> Listed pg)"
  have el: "events wl = ?e0 # events w" using listFilesInPage_events[OF l] .
  show ?case
  proof (cases r)
    case (Inl err)
    with Suc.prems l have "w1 = wl" "res1 = res\<lparr>errors := errors res @ [BatchProcessingError err]\<rparr>"
      by auto
    with el Inl show ?thesis
      by (intro exI[of _ "[?e0]"])
         (simp add: copies_made_simps listing_failures_simps files_query_names files_query_mime)
  next
    case (Inr filesPage)
    note pg = listFilesInPage_page[OF l[unfolded Inr]]
    have e0: "\<not> is_listing_failure ?e0" "\<not> is_copy_made ?e0" "cfo_event sourceId dest ?e0"
      using Inr by simp_all
    let ?files = "allow_list cfg (p_files filesPage)"
    have block: "\<exists>tpa resa wa blk.
        events wa = blk @ events w
        \<and> (\<forall>ev\<in>set blk. cfo_event sourceId dest ev)
        \<and> filesCopied resa = filesCopied res + copies_made blk
        \<and> errors resa = errors res \<and> listing_failures blk = 0
        \<and> foldersCreated resa = foldersCreated res \<and> createdFolders resa = createdFolders res
        \<and> (\<forall>f\<in>set ?files. handled cfg dest blk f)
        \<and> (case p_nextPageToken filesPage of
              None \<Rightarrow> Some (tpa, resa, wa)
            | Some t \<Rightarrow> cfo_loop n cfg sourceId dest (Some t) (tpa, resa, wa)) = Some (tp1, res1, w1)"
    proof (cases "length ?files > 0")
      case False
      with Suc.prems l Inr el e0 show ?thesis
        by (intro exI[of _ tp] exI[of _ res] exI[of _ wl] exI[of _ "[?e0]"])
           (auto simp: Let_def copies_made_simps listing_failures_simps split: option.splits)
    next
      case True
      obtain m w2 where g: "getExistingFiles dest (map f_name ?files) wl = (m, w2)"
        by (cases "getExistingFiles dest (map f_name ?files) wl")
      from getExistingFiles_effect[OF g] obtain newg where
        ng: "events w2 = newg @ events wl"
            "\<forall>ev\<in>set newg. \<exists>q tok sz r. ev = (ListFiles q tok sz, r) \<and> q_names q \<noteq> None"
            "\<forall>nm i. map_of m nm = Some i \<longrightarrow>
              (\<exists>q tok sz pg e. (ListFiles q tok sz, Listed pg) \<in> set newg
                   \<and> q_parent q = Some dest \<and> q_names q \<noteq> None
                   \<and> e \<in> set (p_files pg) \<and> f_name e = nm \<and> f_id e = i)"
        by blast
      from Suc.prems l Inr True g obtain rs tpa resa wa where
        p: "processInBatches 0 ?files (batchSize cfg) (batch_processor cfg dest m) (tp, res, w2)
              = Some (rs, tpa, resa, wa)"
        and rest: "(case p_nextPageToken filesPage of
              None \<Rightarrow> Some (tpa, resa, wa)
            | Some t \<Rightarrow> cfo_loop n cfg sourceId dest (Some t) (tpa, resa, wa)) = Some (tp1, res1, w1)"
        by (auto simp: Let_def split: option.splits prod.splits)
      from processInBatches_effect[OF p] obtain newp where
        np: "events wa = newp @ events w2" "\<forall>ev\<in>set newp. task_event dest ev"
            "filesCopied resa = filesCopied res + copies_made newp"
            "errors resa = errors res" "foldersCreated resa = foldersCreated res"
            "createdFolders resa = createdFolders res"
            "\<forall>f\<in>set ?files. batch_handled cfg dest m newp f"
        by auto
      let ?blk = "newp @ newg @ [?e0]"
      have e: "events wa = ?blk @ events w" using np(1) ng(1) el by simp
      have c: "\<forall>ev\<in>set ?blk. cfo_event sourceId dest ev"
        using np(2) ng(2) e0(3) by (auto intro: task_event_cfo)
      have cnt: "copies_made ?blk = copies_made newp" "listing_failures ?blk = 0"
        using task_events_counts[OF np(2)] names_events_counts[OF ng(2)] e0
        by (simp_all add: copies_made_simps listing_failures_simps)
      have h: "\<forall>f\<in>set ?files. handled cfg dest ?blk f"
      proof
        fix f assume "f \<in> set ?files"
        with np(7) have "batch_handled cfg dest m newp f" by blast
        from batch_handled_handled[OF this ng(3)] have "handled cfg dest (newp @ newg) f" .
        then show "handled cfg dest ?blk f" by (rule handled_mono) auto
      qed
      show ?thesis
        using e c cnt h rest np(3,4,5,6)
        by (intro exI[of _ tpa] exI[of _ resa] exI[of _ wa] exI[of _ ?blk]) simp
    qed
    then obtain tpa resa wa blk where
      b: "events wa = blk @ events w" "\<forall>ev\<in>set blk. cfo_event sourceId dest ev"
         "filesCopied resa = filesCopied res + copies_made blk"
         "errors resa = errors res" "listing_failures blk = 0"
         "foldersCreated resa = foldersCreated res" "createdFolders resa = createdFolders res"
         "\<forall>f\<in>set ?files. handled cfg dest blk f"
         "(case p_nextPageToken filesPage of
              None \<Rightarrow> Some (tpa, resa, wa)
            | Some t \<Rightarrow> cfo_loop n cfg sourceId dest (Some t) (tpa, resa, wa)) = Some (tp1, res1, w1)"
      by blast
    show ?thesis
    proof (cases "?sz < length ?hits")
      case False
      with pg have "p_nextPageToken filesPage = None" "p_files filesPage = ?hits"
        by (auto simp: not_less)
      with b show ?thesis by (intro exI[of _ blk]) simp
    next
      case True
      with pg have t: "p_nextPageToken filesPage = Some (drop ?sz ?hits)"
        and f: "p_files filesPage = take ?sz ?hits" by simp_all
      with b(9) have "cfo_loop n cfg sourceId dest (Some (drop ?sz ?hits)) (tpa, resa, wa)
                        = Some (tp1, res1, w1)"
        by simp
      from Suc.IH[OF this] obtain newr where
        nr: "events w1 = newr @ events wa" "\<forall>ev\<in>set newr. cfo_event sourceId dest ev"
            "filesCopied res1 = filesCopied resa + copies_made newr"
            "length (errors res1) = length (errors resa) + listing_failures newr"
            "foldersCreated res1 = foldersCreated resa" "createdFolders res1 = createdFolders resa"
            "\<forall>e\<in>set (errors res1). e \<in> set (errors resa) \<or> is_batch_error e"
            "listing_failures newr = 0 \<longrightarrow>
               (\<forall>f\<in>set (allow_list cfg (drop ?sz ?hits)). handled cfg dest newr f)"
        by (auto simp: pending_def)
      have e: "events w1 = (newr @ blk) @ events w" using nr(1) b(1) by simp
      have c: "\<forall>ev\<in>set (newr @ blk). cfo_event sourceId dest ev" using nr(2) b(2) by auto
      have h: "\<forall>f\<in>set (allow_list cfg ?hits). handled cfg dest (newr @ blk) f"
        if z: "listing_failures (newr @ blk) = 0"
      proof
        fix x assume "x \<in> set (allow_list cfg ?hits)"
        then have "x \<in> set (allow_list cfg (take ?sz ?hits)) \<or> x \<in> set (allow_list cfg (drop ?sz ?hits))"
          using allow_list_take_drop[of cfg ?hits ?sz] by simp
        then show "handled cfg dest (newr @ blk) x"
        proof
          assume "x \<in> set (allow_list cfg (take ?sz ?hits))"
          with b(8) f have "handled cfg dest blk x" by simp
          then show ?thesis by (rule handled_mono) auto
        next
          assume x: "x \<in> set (allow_list cfg (drop ?sz ?hits))"
          from z have "listing_failures newr = 0" by (simp add: listing_failures_simps)
          with nr(8) x have "handled cfg dest newr x" by blast
          then show ?thesis by (rule handled_mono) auto
        qed
      qed
      show ?thesis
        using e c h nr(3,4,5,6,7) b(3,4,5,6,7)
        by (intro exI[of _ "newr @ blk"]) (simp add: copies_made_simps listing_failures_simps)
    qed
  qed
qed

lemma copyFilesOptimized_effect:
  "copyFilesOptimized fuel cfg sourceId dest (res, w) = Some (tp1, res1, w1) \<Longrightarrow>
     \<exists>new. events w1 = new @ events w
        \<and> (\<forall>ev\<in>set new. cfo_event sourceId dest ev)
        \<and> filesCopied res1 = filesCopied res + copies_made new
        \<and> length (errors res1) = length (errors res) + listing_failures new
        \<and> (\<forall>e\<in>set (errors res1). e \<in> set (errors res) \<or> is_batch_error e)
        \<and> foldersCreated res1 = foldersCreated res \<and> createdFolders res1 = createdFolders res
        \<and> (listing_failures new = 0 \<longrightarrow>
             (\<forall>f\<in>set (allow_list cfg (filter (matches (files_query sourceId)) (drive w))).
                 handled cfg dest new f))"
  unfolding copyFilesOptimized_def using cfo_loop_effect[of fuel cfg sourceId dest None 0 res w]
  by (simp add: pending_def)





subsection \<open>Failures of single copies\<close>

text \<open>
  C6. The claim is that a failed copy is recorded in the error list and does not stop the
  other files. The second half holds: the copy of \<^verbatim>\<open>b.txt\<close> is sent after the copy of
  \<^verbatim>\<open>a.txt\<close> failed. The first half does not: the task turns the failure into a fulfilled
  value with \<^verbatim>\<open>success: false\<close>, and the loop over the settled results pushes onto
  \<^verbatim>\<open>results.errors\<close> only in the \<^verbatim>\<open>else\<close> of its test for fulfilled values, so the run
  ends with an empty error list and an error count of 0.
\<close>

theorem copy_failure_not_recorded:
  "map_option (\<lambda>(out, res, w). (success out, s_errorsCount (o_statistics out), d_errors (o_details out),
                  errors res, filter is_copy (events w)))
     (run 1 (ex_config (Some ''S'') ''rename'') ex_failing)
   = Some (True, 0, [], [],
           [(CopyFile ''b'' ''b.txt'' ''D'', Made ''new0''),
            (CopyFile ''a'' ''a.txt'' ''D'', Failed ''Rate limit exceeded'')])"
  by code_simp

subsection \<open>Folder replication\<close>

text \<open>
  C4, as stated, fails. The claim is that no two \<^verbatim>\<open>createFolder\<close> calls of a run create
  folders of the same name under the same parent. The map of existing folders is fetched
  once per parent and not updated, and the cache is never read: for two source folders
  both named \<^verbatim>\<open>X\<close> the run creates \<^verbatim>\<open>X\<close> under \<^verbatim>\<open>D\<close> twice.
\<close>

theorem createFolder_twice_same_name:
  "map_option (\<lambda>(out, res, w). filter is_create (events w))
     (run 2 (ex_config (Some ''S'') ''rename'') ex_twins)
   = Some [(CreateFolder ''X'' ''D'', Made ''new1''), (CreateFolder ''X'' ''D'', Made ''new0'')]"
  by code_simp

subsection \<open>The calls of a folder replication\<close>

lemma createFolder_events:
  "\<exists>r. events (snd (createFolder nm p w)) = (CreateFolder nm p, r) # events w"
  by (simp add: createFolder_def Let_def split: option.splits)

lemma checkTimeout_events: "events (snd (checkTimeout startTime w)) = events w"
  by (simp add: checkTimeout_def date_now_def split: prod.splits)

lemma prefetched_append: "prefetched p nm older \<Longrightarrow> prefetched p nm (new @ older)"
  by (simp add: prefetched_def)

lemma justified_Cons_other: "\<not> is_create ev \<Longrightarrow> justified (ev # older) = justified older"
  by (cases "ev # older" rule: justified.cases) auto

lemma justified_append: "justified older \<Longrightarrow> \<forall>ev\<in>set new. \<not> is_create ev \<Longrightarrow> justified (new @ older)"
  by (induction new) (simp_all add: justified_Cons_other)

lemma cfo_event_not_create: "cfo_event sourceId dest ev \<Longrightarrow> \<not> is_create ev"
  by (cases "(sourceId, dest, ev)" rule: cfo_event.cases) auto

lemma loop_inv_append: "loop_inv m p evs \<Longrightarrow> loop_inv m p (new @ evs)"
  by (simp add: loop_inv_def prefetched_append)

lemma cfso_loop_justified:
  assumes H: "\<And>sourceId dp path c0 w0 fs c w'.
       createFolderStructureOptimized n cfg sourceId dp path (c0, w0) = Some (fs, c, w') \<Longrightarrow>
       justified (events w0) \<Longrightarrow> justified (events w') \<and> (\<exists>new. events w' = new @ events w0)"
  shows "cfso_loop n cfg dp path m subs folders (cache, w) = Some (fs, c, w') \<Longrightarrow>
         justified (events w) \<Longrightarrow> loop_inv m dp (events w) \<Longrightarrow>
         justified (events w') \<and> (\<exists>new. events w' = new @ events w)"
proof (induction subs arbitrary: folders cache w)
  case Nil
  then show ?case by simp
next
  case (Cons folder rest)
  let ?nm = "f_name folder"
  let ?path = "if path \<noteq> [] then path @ ''/'' @ ?nm else ?nm"
  let ?step = "case map_of m ?nm of Some existing \<Rightarrow> (Inr existing, w)
               | None \<Rightarrow> createFolder ?nm dp w"
  obtain r wa where step: "?step = (r, wa)" by (cases ?step)
  have a: "justified (events wa) \<and> (\<exists>new. events wa = new @ events w)"
  proof (cases "map_of m ?nm")
    case (Some existing)
    with step have "wa = w" by simp
    with Cons.prems(2) show ?thesis by simp
  next
    case None
    with step have "wa = snd (createFolder ?nm dp w)" by simp
    then obtain rr where e: "events wa = (CreateFolder ?nm dp, rr) # events w"
      using createFolder_events[of ?nm dp w] by auto
    from None Cons.prems(3) have "prefetched dp ?nm (events w)" by (simp add: loop_inv_def)
    with e Cons.prems(2) show ?thesis by simp
  qed
  then obtain newa where newa: "events wa = newa @ events w" by blast
  have inva: "loop_inv m dp (events wa)"
    unfolding newa using Cons.prems(3) by (rule loop_inv_append)
  show ?case
  proof (cases r)
    case (Inl err)
    with Cons.prems(1) step have "w' = wa" by (simp add: Let_def)
    with a show ?thesis by simp
  next
    case (Inr destFolderId)
    let ?cache1 = "AList.update (f_id folder) destFolderId cache"
    let ?folders1 = "folders @ [\<lparr>fr_sourceId = f_id folder, fr_destId = destFolderId,
                                  fr_name = ?nm, fr_path = ?path\<rparr>]"
    show ?thesis
    proof (cases "includeSubfolders cfg")
      case False
      with Cons.prems(1) step Inr
      have "cfso_loop n cfg dp path m rest ?folders1 (?cache1, wa) = Some (fs, c, w')"
        by (simp add: Let_def)
      from Cons.IH[OF this] a inva obtain newr where
        "justified (events w')" "events w' = newr @ events wa" by blast
      with newa show ?thesis by simp
    next
      case True
      with Cons.prems(1) step Inr obtain subFolders cache2 w2 where
        rec: "createFolderStructureOptimized n cfg (Some (f_id folder)) destFolderId ?path (?cache1, wa)
                = Some (subFolders, cache2, w2)"
        and lp: "cfso_loop n cfg dp path m rest (?folders1 @ subFolders) (cache2, w2) = Some (fs, c, w')"
        by (auto simp: Let_def split: option.splits)
      from H[OF rec] a obtain new2 where
        j2: "justified (events w2)" and e2: "events w2 = new2 @ events wa" by blast
      have inv2: "loop_inv m dp (events w2)"
        unfolding e2 using inva by (rule loop_inv_append)
      from Cons.IH[OF lp j2 inv2] obtain newr where
        "justified (events w')" "events w' = newr @ events w2" by blast
      with e2 newa show ?thesis by simp
    qed
  qed
qed

lemma createFolderStructureOptimized_justified:
  "createFolderStructureOptimized n cfg sourceId dp path (c0, w0) = Some (fs, c, w') \<Longrightarrow>
   justified (events w0) \<Longrightarrow> justified (events w') \<and> (\<exists>new. events w' = new @ events w0)"
proof (induction n arbitrary: sourceId dp path c0 w0 fs c w')
  case 0
  then show ?case by simp
next
  case (Suc n)
  show ?case
  proof (cases "truthy sourceId")
    case False
    then have "sourceId = None \<or> sourceId = Some []" by (cases sourceId) auto
    with Suc.prems have "w' = w0" by auto
    with Suc.prems(2) show ?thesis by simp
  next
    case True
    then obtain sid where sid: "sourceId = Some sid" "sid \<noteq> []" by (cases sourceId) auto
    obtain r1 w1 where l1: "listFilesInPage None (folders_query sid) 100 w0 = (r1, w1)"
      by (cases "listFilesInPage None (folders_query sid) 100 w0")
    note e1 = listFilesInPage_events[OF l1]
    have j1: "justified (events w1)" using e1 Suc.prems(2) by simp
    show ?thesis
    proof (cases r1)
      case (Inl err)
      with Suc.prems(1) sid l1 have "w' = w1" by simp
      with j1 e1 show ?thesis by simp
    next
      case (Inr subfolders)
      obtain r2 w2 where l2: "listFilesInPage None (folders_query dp) 100 w1 = (r2, w2)"
        by (cases "listFilesInPage None (folders_query dp) 100 w1")
      note e2 = listFilesInPage_events[OF l2]
      have j2: "justified (events w2)" using e2 j1 by simp
      show ?thesis
      proof (cases r2)
        case (Inl err)
        with Suc.prems(1) sid l1 l2 \<open>r1 = Inr subfolders\<close> have "w' = w2" by simp
        with j2 e1 e2 show ?thesis by simp
      next
        case (Inr existingFolders)
        let ?m = "new_Map (map (\<lambda>f. (f_name f, f_id f)) (p_files existingFolders))"
        have lp: "cfso_loop n cfg dp path ?m (p_files subfolders) [] (c0, w2) = Some (fs, c, w')"
          using Suc.prems(1) sid l1 l2 \<open>r1 = Inr subfolders\<close> Inr by simp
        have inv: "loop_inv ?m dp (events w2)"
          unfolding loop_inv_def
        proof (intro allI impI)
          fix nm assume "map_of ?m nm = None"
          then have "nm \<notin> set (map f_name (p_files existingFolders))"
            by (simp add: new_Map_None image_image)
          then show "prefetched dp nm (events w2)"
            using e2 Inr by (simp add: prefetched_def)
        qed
        have "justified (events w') \<and> (\<exists>new. events w' = new @ events w2)"
        proof (rule cfso_loop_justified[OF _ lp j2 inv])
          fix sourceId dp path c0 w0 fs c w'
          assume "createFolderStructureOptimized n cfg sourceId dp path (c0, w0) = Some (fs, c, w')"
            and "justified (events w0)"
          then show "justified (events w') \<and> (\<exists>new. events w' = new @ events w0)"
            by (rule Suc.IH)
        qed
        then obtain newr where "justified (events w')" "events w' = newr @ events w2" by blast
        with e1 e2 show ?thesis by simp
      qed
    qed
  qed
qed

lemma keeps_same: "events w1 = events w \<Longrightarrow> keeps w w1"
  by (simp add: keeps_def)

lemma keeps_trans: "keeps w w1 \<Longrightarrow> keeps w1 w2 \<Longrightarrow> keeps w w2"
  unfolding keeps_def by auto

lemma checkTimeout_keeps: "checkTimeout startTime w = (r, w1) \<Longrightarrow> keeps w w1"
  using checkTimeout_events[of startTime w] by (simp add: keeps_same)

lemma createFolderStructureOptimized_keeps:
  "createFolderStructureOptimized n cfg sourceId dp path (c0, w0) = Some (fs, c, w') \<Longrightarrow> keeps w0 w'"
  unfolding keeps_def using createFolderStructureOptimized_justified by blast

lemma copyFilesOptimized_keeps:
  assumes "copyFilesOptimized fuel cfg sourceId dest (res, w) = Some (tp1, res1, w1)"
  shows "keeps w w1"
proof -
  from copyFilesOptimized_effect[OF assms] obtain new where
    n: "events w1 = new @ events w \<and> (\<forall>ev\<in>set new. cfo_event sourceId dest ev)"
    by (elim exE conjE) (rule that, intro conjI)
  then have "\<forall>ev\<in>set new. \<not> is_create ev" using cfo_event_not_create by blast
  with n show ?thesis unfolding keeps_def by (auto intro: justified_append)
qed

lemma copy_subfolders_keeps:
  "copy_subfolders fuel cfg startTime folders (res, w) = Some (x, res1, w1) \<Longrightarrow> keeps w w1"
proof (induction folders arbitrary: res w)
  case Nil
  then show ?case by (simp add: keeps_same)
next
  case (Cons folder rest)
  obtain r wc where c: "checkTimeout startTime w = (r, wc)" by (cases "checkTimeout startTime w")
  note k1 = checkTimeout_keeps[OF c]
  show ?case
  proof (cases r)
    case (Inl err)
    with Cons.prems c have "w1 = wc" by simp
    with k1 show ?thesis by simp
  next
    case (Inr u)
    with Cons.prems c obtain tp resa wa where
      cp: "copyFilesOptimized fuel cfg (Some (fr_sourceId folder)) (fr_destId folder) (res, wc)
             = Some (tp, resa, wa)"
      and rec: "copy_subfolders fuel cfg startTime rest (resa, wa) = Some (x, res1, w1)"
      by (auto split: option.splits)
    from k1 copyFilesOptimized_keeps[OF cp] Cons.IH[OF rec] show ?thesis
      by (blast intro: keeps_trans)
  qed
qed

lemma run_try_keeps:
  assumes "run_try fuel cfg startTime (res, w) = Some (x, res1, w1)"
  shows "keeps w w1"
proof -
  obtain r0 w0 where c0: "checkTimeout startTime w = (r0, w0)" by (cases "checkTimeout startTime w")
  note k0 = checkTimeout_keeps[OF c0]
  show ?thesis
  proof (cases r0)
    case (Inl err)
    with assms c0 have "w1 = w0" by (simp add: run_try_def split: if_splits)
    with k0 show ?thesis by simp
  next
    case (Inr u)
    show ?thesis
    proof (cases "preserveStructure cfg \<and> truthy (sourceFolderId cfg)")
      case False
      with assms c0 Inr obtain tp where
        "copyFilesOptimized fuel cfg (sourceFolderId cfg) (destinationFolderId cfg) (res, w0)
           = Some (tp, res1, w1)"
        by (auto simp: run_try_def split: option.splits)
      from k0 copyFilesOptimized_keeps[OF this] show ?thesis by (rule keeps_trans)
    next
      case True
      let ?mk = "\<lambda>folders. res\<lparr>foldersCreated := length folders,
                   createdFolders := map (\<lambda>f. \<lparr>cf_name = fr_name f, cf_id = fr_destId f,
                                                cf_path = fr_path f\<rparr>) folders\<rparr>"
      from assms c0 Inr True obtain folders cache w2 where
        cf: "createFolderStructureOptimized fuel cfg (sourceFolderId cfg) (destinationFolderId cfg) []
               ([], w0) = Some (folders, cache, w2)"
        and rest1: "(case checkTimeout startTime w2 of
                      (Inl err, w3) \<Rightarrow> Some (Inl err, ?mk folders, w3)
                    | (Inr u, w3) \<Rightarrow>
                       (case copyFilesOptimized fuel cfg (sourceFolderId cfg)
                               (destinationFolderId cfg) (?mk folders, w3) of
                          None \<Rightarrow> None
                        | Some (totalProcessed, res2, w4) \<Rightarrow>
                           (case checkTimeout startTime w4 of
                              (Inl err, w5) \<Rightarrow> Some (Inl err, res2, w5)
                            | (Inr u, w5) \<Rightarrow>
                                copy_subfolders fuel cfg startTime folders (res2, w5))))
                    = Some (x, res1, w1)"
        by (auto simp: run_try_def Let_def split: option.splits)
      note k2 = keeps_trans[OF k0 createFolderStructureOptimized_keeps[OF cf]]
      obtain r3 w3 where c3: "checkTimeout startTime w2 = (r3, w3)" by (cases "checkTimeout startTime w2")
      note k3 = keeps_trans[OF k2 checkTimeout_keeps[OF c3]]
      show ?thesis
      proof (cases r3)
        case (Inl err)
        with rest1 c3 have "w1 = w3" by simp
        with k3 show ?thesis by simp
      next
        case (Inr u3)
        with rest1 c3 obtain tp res2 w4 where
          cp: "copyFilesOptimized fuel cfg (sourceFolderId cfg) (destinationFolderId cfg)
                 (?mk folders, w3) = Some (tp, res2, w4)"
          and rest2: "(case checkTimeout startTime w4 of
                              (Inl err, w5) \<Rightarrow> Some (Inl err, res2, w5)
                            | (Inr u, w5) \<Rightarrow>
                                copy_subfolders fuel cfg startTime folders (res2, w5))
                       = Some (x, res1, w1)"
          by (auto split: option.splits)
        note k4 = keeps_trans[OF k3 copyFilesOptimized_keeps[OF cp]]
        obtain r5 w5 where c5: "checkTimeout startTime w4 = (r5, w5)" by (cases "checkTimeout startTime w4")
        note k5 = keeps_trans[OF k4 checkTimeout_keeps[OF c5]]
        show ?thesis
        proof (cases r5)
          case (Inl err)
          with rest2 c5 have "w1 = w5" by simp
          with k5 show ?thesis by simp
        next
          case (Inr u5)
          with rest2 c5 have "copy_subfolders fuel cfg startTime folders (res2, w5) = Some (x, res1, w1)"
            by simp
          from k5 copy_subfolders_keeps[OF this] show ?thesis by (rule keeps_trans)
        qed
      qed
    qed
  qed
qed

lemma run_unfold:
  assumes "run fuel cfg w = Some (out, res, w1)"
  shows "\<exists>x w'. run_try fuel cfg (fst (date_now w)) (initial_results, snd (date_now w)) = Some (x, res, w')
            \<and> events w1 = events w'"
  using assms unfolding run_def
  by (auto simp: date_now_def Let_def split: prod.splits option.splits sum.splits)

lemma justified_suffix: "justified (a @ b) \<Longrightarrow> justified b"
proof (induction a)
  case Nil
  then show ?case by simp
next
  case (Cons ev a)
  then show ?case by (cases "is_create ev") (auto simp: justified_Cons_other elim: is_create.elims)
qed

lemma prefetched_listing:
  "prefetched p nm older \<Longrightarrow>
     \<exists>tok sz pg. (ListFiles (folders_query p) tok sz, Listed pg) \<in> set older
                 \<and> nm \<notin> set (map f_name (p_files pg))"
proof -
  assume "prefetched p nm older"
  then obtain ev where ev: "ev \<in> set older" "justified_by p nm ev"
    by (auto simp: prefetched_def list_ex_iff)
  from ev(2) obtain tok sz pg where
    "ev = (ListFiles (folders_query p) tok sz, Listed pg)" "nm \<notin> set (map f_name (p_files pg))"
    by (cases "(p, nm, ev)" rule: justified_by.cases) auto
  with ev(1) show ?thesis by blast
qed

text \<open>
  C4, amended. In the log of a run that starts with an empty log, every \<^verbatim>\<open>createFolder\<close>
  call comes after a listing of the folders under its parent that did not return its
  name: a folder is created only when the pre-fetched listing of its destination parent
  lacks the name, and a name found there is reused. Nothing is said of two source folders
  of one name, nor of the cache.
\<close>

theorem createFolder_only_unlisted_names:
  assumes "events w = []" and "run fuel cfg w = Some (out, res, w1)"
  shows "justified (events w1)
       \<and> (\<forall>newer nm p r older. events w1 = newer @ (CreateFolder nm p, r) # older \<longrightarrow>
             (\<exists>tok sz pg. (ListFiles (folders_query p) tok sz, Listed pg) \<in> set older
                          \<and> nm \<notin> set (map f_name (p_files pg))))"
proof -
  from run_unfold[OF assms(2)] obtain x w' where
    rt: "run_try fuel cfg (fst (date_now w)) (initial_results, snd (date_now w)) = Some (x, res, w')"
    and e: "events w1 = events w'" by blast
  have "keeps (snd (date_now w)) w'" using rt by (rule run_try_keeps)
  then have "keeps w w'" unfolding keeps_def by (simp add: date_now_events)
  with assms(1) e have j: "justified (events w1)" unfolding keeps_def by simp
  have "\<exists>tok sz pg. (ListFiles (folders_query p) tok sz, Listed pg) \<in> set older
                          \<and> nm \<notin> set (map f_name (p_files pg))"
    if s: "events w1 = newer @ (CreateFolder nm p, r) # older" for newer nm p r older
  proof -
    from j s have "justified ((CreateFolder nm p, r) # older)" by (auto dest: justified_suffix)
    then have "prefetched p nm older" by simp
    then show ?thesis by (rule prefetched_listing)
  qed
  with j show ?thesis by blast
qed

lemma ex_twins_runs:
  "(case run 2 (ex_config (Some ''S'') ''rename'') ex_twins of
      Some (out, res, w1) \<Rightarrow> success out \<and> foldersCreated res = 2
    | None \<Rightarrow> False)"
  by code_simp

theorem createFolder_only_unlisted_names_witness:
  "events ex_twins = []
   \<and> (case run 2 (ex_config (Some ''S'') ''rename'') ex_twins of
        Some (out, res, w1) \<Rightarrow> success out \<and> foldersCreated res = 2 \<and> justified (events w1)
      | None \<Rightarrow> False)"
proof -
  let ?r = "run 2 (ex_config (Some ''S'') ''rename'') ex_twins"
  have h: "events ex_twins = []" by (simp add: ex_twins_def mk_world_def)
  obtain out res w1 where r: "?r = Some (out, res, w1)"
    using ex_twins_runs by (cases ?r) auto
  from createFolder_only_unlisted_names[OF h r] have "justified (events w1)" by blast
  with h ex_twins_runs show ?thesis unfolding r by simp
qed

subsection \<open>The deadline\<close>

text \<open>
  What a folder replication adds to the log: no copy, no listing of candidates, and the
  folders the store made. Each folder it made has its record, and each record stands for
  a folder it made or for a folder that a listing returned.
\<close>

lemma createFolder_answer:
  "createFolder nm p w = (r, w1) \<Longrightarrow>
     events w1 = (CreateFolder nm p, case r of Inl msg \<Rightarrow> Failed msg | Inr i \<Rightarrow> Made i) # events w"
  by (auto simp: createFolder_def Let_def split: option.splits)

lemma folders_query_mime: "q_mime (folders_query p) = IsFolder"
  by (simp add: folders_query_def)

lemma record_origin_mono:
  "record_origin evs nm i \<Longrightarrow> set evs \<subseteq> set evs' \<Longrightarrow> record_origin evs' nm i"
  unfolding record_origin_def by blast

lemma cfso_loop_counts:
  assumes H: "\<And>sourceId dp path c0 w0 fs c w'.
       createFolderStructureOptimized n cfg sourceId dp path (c0, w0) = Some (fs, c, w') \<Longrightarrow>
       \<exists>new. events w' = new @ events w0 \<and> copies_made new = 0 \<and> listing_failures new = 0
            \<and> creates_made new \<le> length fs
            \<and> (\<forall>f\<in>set fs. record_origin new (fr_name f) (fr_destId f))
            \<and> (\<forall>nm p i. (CreateFolder nm p, Made i) \<in> set new
                  \<longrightarrow> (\<exists>f\<in>set fs. fr_name f = nm \<and> fr_destId f = i))"
    and M: "\<forall>nm i. map_of m nm = Some i \<longrightarrow> record_origin pre nm i"
  shows "cfso_loop n cfg dp path m subs folders (cache, w) = Some (fs, c, w') \<Longrightarrow>
         \<exists>new. events w' = new @ events w \<and> copies_made new = 0 \<and> listing_failures new = 0
              \<and> creates_made new + length folders \<le> length fs
              \<and> set folders \<subseteq> set fs
              \<and> (\<forall>f\<in>set fs. f \<in> set folders \<or> record_origin (new @ pre) (fr_name f) (fr_destId f))
              \<and> (\<forall>nm p i. (CreateFolder nm p, Made i) \<in> set new
                    \<longrightarrow> (\<exists>f\<in>set fs. fr_name f = nm \<and> fr_destId f = i))"
proof (induction subs arbitrary: folders cache w)
  case Nil
  then show ?case
    by (intro exI[of _ "[]"]) (simp add: copies_made_simps listing_failures_simps creates_made_simps)
next
  case (Cons folder rest)
  let ?nm = "f_name folder"
  let ?path = "if path \<noteq> [] then path @ ''/'' @ ?nm else ?nm"
  let ?step = "case map_of m ?nm of Some existing \<Rightarrow> (Inr existing, w)
               | None \<Rightarrow> createFolder ?nm dp w"
  obtain r wa where step: "?step = (r, wa)" by (cases ?step)
  have a: "\<exists>newa. events wa = newa @ events w \<and> copies_made newa = 0 \<and> listing_failures newa = 0
             \<and> creates_made newa \<le> (case r of Inl err \<Rightarrow> 0 | Inr i \<Rightarrow> 1)
             \<and> (\<forall>i. r = Inr i \<longrightarrow> record_origin (newa @ pre) ?nm i)
             \<and> (\<forall>nm p i. (CreateFolder nm p, Made i) \<in> set newa \<longrightarrow> nm = ?nm \<and> r = Inr i)"
  proof (cases "map_of m ?nm")
    case (Some existing)
    with step have "wa = w" "r = Inr existing" by simp_all
    with Some M show ?thesis
      by (intro exI[of _ "[]"]) (simp add: copies_made_simps listing_failures_simps creates_made_simps)
  next
    case None
    with step have cf: "createFolder ?nm dp w = (r, wa)" by simp
    let ?ev = "(CreateFolder ?nm dp, case r of Inl msg \<Rightarrow> Failed msg | Inr i \<Rightarrow> Made i)"
    have o: "\<forall>i. r = Inr i \<longrightarrow> record_origin ([?ev] @ pre) ?nm i"
      by (auto simp: record_origin_def)
    from createFolder_answer[OF cf] o show ?thesis
      by (intro exI[of _ "[?ev]"])
         (auto simp: copies_made_simps listing_failures_simps creates_made_simps split: sum.splits)
  qed
  then obtain newa where
    na: "events wa = newa @ events w" "copies_made newa = 0" "listing_failures newa = 0"
        "creates_made newa \<le> (case r of Inl err \<Rightarrow> 0 | Inr i \<Rightarrow> 1)"
        "\<forall>i. r = Inr i \<longrightarrow> record_origin (newa @ pre) ?nm i"
        "\<forall>nm p i. (CreateFolder nm p, Made i) \<in> set newa \<longrightarrow> nm = ?nm \<and> r = Inr i"
    by blast
  show ?case
  proof (cases r)
    case (Inl err)
    with Cons.prems step have "w' = wa" "fs = folders" by (simp_all add: Let_def)
    with na Inl show ?thesis by (intro exI[of _ newa]) simp
  next
    case (Inr destFolderId)
    let ?cache1 = "AList.update (f_id folder) destFolderId cache"
    let ?rec = "\<lparr>fr_sourceId = f_id folder, fr_destId = destFolderId,
                 fr_name = ?nm, fr_path = ?path\<rparr>"
    let ?folders1 = "folders @ [?rec]"
    have orec: "record_origin (newa @ pre) (fr_name ?rec) (fr_destId ?rec)"
      using na(5) Inr by simp
    have crec: "\<forall>nm p i. (CreateFolder nm p, Made i) \<in> set newa
                 \<longrightarrow> fr_name ?rec = nm \<and> fr_destId ?rec = i"
      using na(6) Inr by auto
    show ?thesis
    proof (cases "includeSubfolders cfg")
      case False
      with Cons.prems step Inr
      have "cfso_loop n cfg dp path m rest ?folders1 (?cache1, wa) = Some (fs, c, w')"
        by (simp add: Let_def)
      from Cons.IH[OF this] obtain newr where
        nr: "events w' = newr @ events wa" "copies_made newr = 0" "listing_failures newr = 0"
            "creates_made newr + length ?folders1 \<le> length fs"
            "set ?folders1 \<subseteq> set fs"
            "\<forall>f\<in>set fs. f \<in> set ?folders1 \<or> record_origin (newr @ pre) (fr_name f) (fr_destId f)"
            "\<forall>nm p i. (CreateFolder nm p, Made i) \<in> set newr
                  \<longrightarrow> (\<exists>f\<in>set fs. fr_name f = nm \<and> fr_destId f = i)"
        by blast
      have o: "\<forall>f\<in>set fs. f \<in> set folders
                 \<or> record_origin ((newr @ newa) @ pre) (fr_name f) (fr_destId f)"
      proof
        fix f assume "f \<in> set fs"
        with nr(6) consider "f \<in> set folders" | "f = ?rec"
          | "record_origin (newr @ pre) (fr_name f) (fr_destId f)" by auto
        then show "f \<in> set folders \<or> record_origin ((newr @ newa) @ pre) (fr_name f) (fr_destId f)"
        proof cases
          case 1
          then show ?thesis by simp
        next
          case 2
          with orec have "record_origin (newa @ pre) (fr_name f) (fr_destId f)" by simp
          then have "record_origin ((newr @ newa) @ pre) (fr_name f) (fr_destId f)"
            by (rule record_origin_mono) auto
          then show ?thesis by simp
        next
          case 3
          then have "record_origin ((newr @ newa) @ pre) (fr_name f) (fr_destId f)"
            by (rule record_origin_mono) auto
          then show ?thesis by simp
        qed
      qed
      have k: "\<forall>nm p i. (CreateFolder nm p, Made i) \<in> set (newr @ newa)
                  \<longrightarrow> (\<exists>f\<in>set fs. fr_name f = nm \<and> fr_destId f = i)"
      proof (intro allI impI)
        fix nm p i assume "(CreateFolder nm p, Made i) \<in> set (newr @ newa)"
        then have "(CreateFolder nm p, Made i) \<in> set newr \<or> (CreateFolder nm p, Made i) \<in> set newa"
          by simp
        then show "\<exists>f\<in>set fs. fr_name f = nm \<and> fr_destId f = i"
        proof
          assume "(CreateFolder nm p, Made i) \<in> set newr"
          with nr(7) show ?thesis by blast
        next
          assume "(CreateFolder nm p, Made i) \<in> set newa"
          with crec have "fr_name ?rec = nm \<and> fr_destId ?rec = i" by blast
          moreover have "?rec \<in> set fs" using nr(5) by simp
          ultimately show ?thesis by blast
        qed
      qed
      have s: "set folders \<subseteq> set fs" using nr(5) by simp
      show ?thesis
        using na(1,2,3,4) nr(1,2,3,4) Inr o k s
        by (intro exI[of _ "newr @ newa"])
           (simp add: copies_made_simps listing_failures_simps creates_made_simps)
    next
      case True
      with Cons.prems step Inr obtain subFolders cache2 w2 where
        rec: "createFolderStructureOptimized n cfg (Some (f_id folder)) destFolderId ?path (?cache1, wa)
                = Some (subFolders, cache2, w2)"
        and lp: "cfso_loop n cfg dp path m rest (?folders1 @ subFolders) (cache2, w2) = Some (fs, c, w')"
        by (auto simp: Let_def split: option.splits)
      from H[OF rec] obtain new2 where
        n2: "events w2 = new2 @ events wa" "copies_made new2 = 0" "listing_failures new2 = 0"
            "creates_made new2 \<le> length subFolders"
            "\<forall>f\<in>set subFolders. record_origin new2 (fr_name f) (fr_destId f)"
            "\<forall>nm p i. (CreateFolder nm p, Made i) \<in> set new2
                  \<longrightarrow> (\<exists>f\<in>set subFolders. fr_name f = nm \<and> fr_destId f = i)"
        by blast
      from Cons.IH[OF lp] obtain newr where
        nr: "events w' = newr @ events w2" "copies_made newr = 0" "listing_failures newr = 0"
            "creates_made newr + length (?folders1 @ subFolders) \<le> length fs"
            "set (?folders1 @ subFolders) \<subseteq> set fs"
            "\<forall>f\<in>set fs. f \<in> set (?folders1 @ subFolders)
                 \<or> record_origin (newr @ pre) (fr_name f) (fr_destId f)"
            "\<forall>nm p i. (CreateFolder nm p, Made i) \<in> set newr
                  \<longrightarrow> (\<exists>f\<in>set fs. fr_name f = nm \<and> fr_destId f = i)"
        by blast
      have o: "\<forall>f\<in>set fs. f \<in> set folders
                 \<or> record_origin ((newr @ new2 @ newa) @ pre) (fr_name f) (fr_destId f)"
      proof
        fix f assume "f \<in> set fs"
        with nr(6) consider "f \<in> set folders" | "f = ?rec" | "f \<in> set subFolders"
          | "record_origin (newr @ pre) (fr_name f) (fr_destId f)" by auto
        then show "f \<in> set folders
                 \<or> record_origin ((newr @ new2 @ newa) @ pre) (fr_name f) (fr_destId f)"
        proof cases
          case 1
          then show ?thesis by simp
        next
          case 2
          with orec have "record_origin (newa @ pre) (fr_name f) (fr_destId f)" by simp
          then have "record_origin ((newr @ new2 @ newa) @ pre) (fr_name f) (fr_destId f)"
            by (rule record_origin_mono) auto
          then show ?thesis by simp
        next
          case 3
          with n2(5) have "record_origin new2 (fr_name f) (fr_destId f)" by blast
          then have "record_origin ((newr @ new2 @ newa) @ pre) (fr_name f) (fr_destId f)"
            by (rule record_origin_mono) auto
          then show ?thesis by simp
        next
          case 4
          then have "record_origin ((newr @ new2 @ newa) @ pre) (fr_name f) (fr_destId f)"
            by (rule record_origin_mono) auto
          then show ?thesis by simp
        qed
      qed
      have k: "\<forall>nm p i. (CreateFolder nm p, Made i) \<in> set (newr @ new2 @ newa)
                  \<longrightarrow> (\<exists>f\<in>set fs. fr_name f = nm \<and> fr_destId f = i)"
      proof (intro allI impI)
        fix nm p i assume "(CreateFolder nm p, Made i) \<in> set (newr @ new2 @ newa)"
        then consider "(CreateFolder nm p, Made i) \<in> set newr"
          | "(CreateFolder nm p, Made i) \<in> set new2" | "(CreateFolder nm p, Made i) \<in> set newa"
          by auto
        then show "\<exists>f\<in>set fs. fr_name f = nm \<and> fr_destId f = i"
        proof cases
          case 1
          with nr(7) show ?thesis by blast
        next
          case 2
          with n2(6) obtain f where "f \<in> set subFolders" "fr_name f = nm \<and> fr_destId f = i" by blast
          moreover from this(1) nr(5) have "f \<in> set fs" by auto
          ultimately show ?thesis by blast
        next
          case 3
          with crec have "fr_name ?rec = nm \<and> fr_destId ?rec = i" by blast
          moreover have "?rec \<in> set fs" using nr(5) by simp
          ultimately show ?thesis by blast
        qed
      qed
      have s: "set folders \<subseteq> set fs" using nr(5) by simp
      show ?thesis
        using na(1,2,3,4) n2(1,2,3,4) nr(1,2,3,4) Inr o k s
        by (intro exI[of _ "newr @ new2 @ newa"])
           (simp add: copies_made_simps listing_failures_simps creates_made_simps)
    qed
  qed
qed

lemma createFolderStructureOptimized_counts:
  "createFolderStructureOptimized n cfg sourceId dp path (c0, w0) = Some (fs, c, w') \<Longrightarrow>
   \<exists>new. events w' = new @ events w0 \<and> copies_made new = 0 \<and> listing_failures new = 0
        \<and> creates_made new \<le> length fs
        \<and> (\<forall>f\<in>set fs. record_origin new (fr_name f) (fr_destId f))
        \<and> (\<forall>nm p i. (CreateFolder nm p, Made i) \<in> set new
              \<longrightarrow> (\<exists>f\<in>set fs. fr_name f = nm \<and> fr_destId f = i))"
proof (induction n arbitrary: sourceId dp path c0 w0 fs c w')
  case 0
  then show ?case by simp
next
  case (Suc n)
  show ?case
  proof (cases "truthy sourceId")
    case False
    then have "sourceId = None \<or> sourceId = Some []" by (cases sourceId) auto
    with Suc.prems have "w' = w0" "fs = []" by auto
    then show ?thesis
      by (intro exI[of _ "[]"]) (simp add: copies_made_simps listing_failures_simps creates_made_simps)
  next
    case True
    then obtain sid where sid: "sourceId = Some sid" "sid \<noteq> []" by (cases sourceId) auto
    obtain r1 w1 where l1: "listFilesInPage None (folders_query sid) 100 w0 = (r1, w1)"
      by (cases "listFilesInPage None (folders_query sid) 100 w0")
    let ?e1 = "(ListFiles (folders_query sid) None 100,
                case r1 of Inl msg \<Rightarrow> Failed msg | Inr pg \<Rightarrow> Listed pg)"
    note e1 = listFilesInPage_events[OF l1]
    have c1: "\<not> is_copy_made ?e1" "\<not> is_listing_failure ?e1" "\<not> is_create_made ?e1"
      by (cases r1; simp add: folders_query_mime)+
    show ?thesis
    proof (cases r1)
      case (Inl err)
      with Suc.prems(1) sid l1 have "w' = w1" "fs = []" by simp_all
      with e1 c1 Inl show ?thesis
        by (intro exI[of _ "[?e1]"])
           (simp add: copies_made_simps listing_failures_simps creates_made_simps)
    next
      case (Inr subfolders)
      obtain r2 w2 where l2: "listFilesInPage None (folders_query dp) 100 w1 = (r2, w2)"
        by (cases "listFilesInPage None (folders_query dp) 100 w1")
      let ?e2 = "(ListFiles (folders_query dp) None 100,
                  case r2 of Inl msg \<Rightarrow> Failed msg | Inr pg \<Rightarrow> Listed pg)"
      note e2 = listFilesInPage_events[OF l2]
      have c2: "\<not> is_copy_made ?e2" "\<not> is_listing_failure ?e2" "\<not> is_create_made ?e2"
        by (cases r2; simp add: folders_query_mime)+
      show ?thesis
      proof (cases r2)
        case (Inl err)
        with Suc.prems(1) sid l1 l2 \<open>r1 = Inr subfolders\<close> have "w' = w2" "fs = []" by simp_all
        with e1 e2 c1 c2 Inl \<open>r1 = Inr subfolders\<close> show ?thesis
          by (intro exI[of _ "[?e2, ?e1]"])
             (simp add: copies_made_simps listing_failures_simps creates_made_simps)
      next
        case (Inr existingFolders)
        let ?m = "new_Map (map (\<lambda>f. (f_name f, f_id f)) (p_files existingFolders))"
        have lp: "cfso_loop n cfg dp path ?m (p_files subfolders) [] (c0, w2) = Some (fs, c, w')"
          using Suc.prems(1) sid l1 l2 \<open>r1 = Inr subfolders\<close> Inr by simp
        have M: "\<forall>nm i. map_of ?m nm = Some i \<longrightarrow> record_origin [?e2] nm i"
        proof (intro allI impI)
          fix nm i assume "map_of ?m nm = Some i"
          then have "(nm, i) \<in> set (map (\<lambda>f. (f_name f, f_id f)) (p_files existingFolders))"
            by (rule new_Map_Some)
          then obtain e where "e \<in> set (p_files existingFolders)" "f_name e = nm" "f_id e = i"
            by auto
          with Inr show "record_origin [?e2] nm i"
            unfolding record_origin_def
            by (intro disjI2 exI[of _ "folders_query dp"] exI[of _ None] exI[of _ 100]
                  exI[of _ existingFolders] exI[of _ e]) (simp add: folders_query_mime)
        qed
        have "\<exists>new. events w' = new @ events w2 \<and> copies_made new = 0 \<and> listing_failures new = 0
                \<and> creates_made new + length ([] :: folder_rec list) \<le> length fs
                \<and> set ([] :: folder_rec list) \<subseteq> set fs
                \<and> (\<forall>f\<in>set fs. f \<in> set ([] :: folder_rec list)
                      \<or> record_origin (new @ [?e2]) (fr_name f) (fr_destId f))
                \<and> (\<forall>nm p i. (CreateFolder nm p, Made i) \<in> set new
                      \<longrightarrow> (\<exists>f\<in>set fs. fr_name f = nm \<and> fr_destId f = i))"
        proof (rule cfso_loop_counts[OF _ M lp])
          fix sourceId dp path c0 w0 fs c w'
          assume "createFolderStructureOptimized n cfg sourceId dp path (c0, w0) = Some (fs, c, w')"
          then show "\<exists>new. events w' = new @ events w0 \<and> copies_made new = 0
                       \<and> listing_failures new = 0 \<and> creates_made new \<le> length fs
                       \<and> (\<forall>f\<in>set fs. record_origin new (fr_name f) (fr_destId f))
                       \<and> (\<forall>nm p i. (CreateFolder nm p, Made i) \<in> set new
                             \<longrightarrow> (\<exists>f\<in>set fs. fr_name f = nm \<and> fr_destId f = i))"
            by (rule Suc.IH)
        qed
        then obtain newr where
          nr: "events w' = newr @ events w2" "copies_made newr = 0" "listing_failures newr = 0"
              "creates_made newr \<le> length fs"
              "\<forall>f\<in>set fs. record_origin (newr @ [?e2]) (fr_name f) (fr_destId f)"
              "\<forall>nm p i. (CreateFolder nm p, Made i) \<in> set newr
                      \<longrightarrow> (\<exists>f\<in>set fs. fr_name f = nm \<and> fr_destId f = i)"
          by auto
        have o: "\<forall>f\<in>set fs. record_origin (newr @ [?e2, ?e1]) (fr_name f) (fr_destId f)"
        proof
          fix f assume "f \<in> set fs"
          with nr(5) have "record_origin (newr @ [?e2]) (fr_name f) (fr_destId f)" by blast
          then show "record_origin (newr @ [?e2, ?e1]) (fr_name f) (fr_destId f)"
            by (rule record_origin_mono) auto
        qed
        have k: "\<forall>nm p i. (CreateFolder nm p, Made i) \<in> set (newr @ [?e2, ?e1])
                      \<longrightarrow> (\<exists>f\<in>set fs. fr_name f = nm \<and> fr_destId f = i)"
          using nr(6) by auto
        show ?thesis
          using nr(1,2,3,4) e1 e2 c1 c2 o k
          by (intro exI[of _ "newr @ [?e2, ?e1]"])
             (simp add: copies_made_simps listing_failures_simps creates_made_simps)
      qed
    qed
  qed
qed

lemma cfo_events_creates:
  "\<forall>ev\<in>set evs. cfo_event sourceId dest ev \<Longrightarrow>
     creates_made evs = 0 \<and> (\<forall>nm p r. (CreateFolder nm p, r) \<notin> set evs)"
proof (induction evs)
  case Nil
  then show ?case by (simp add: creates_made_simps)
next
  case (Cons ev evs)
  then have "cfo_event sourceId dest ev" by simp
  then have "\<not> is_create_made ev \<and> (\<forall>nm p r. ev \<noteq> (CreateFolder nm p, r))"
    by (cases "(sourceId, dest, ev)" rule: cfo_event.cases) auto
  with Cons show ?case by (auto simp: creates_made_simps)
qed

lemma checkTimeout_effect:
  "checkTimeout startTime w = (r, w1) \<Longrightarrow>
     events w1 = events w \<and> drive w1 = drive w
     \<and> (\<forall>err. r = Inl err \<longrightarrow> err = timeout_message \<and> tripped startTime w1)"
  by (auto simp: checkTimeout_def date_now_def tripped_def split: if_splits)

text \<open>The accumulator and the log after a part of a run, against those before it.\<close>

lemma copy_subfolders_tally:
  "copy_subfolders fuel cfg startTime folders (res, w) = Some (x, res1, w1) \<Longrightarrow>
     \<exists>new. events w1 = new @ events w
        \<and> filesCopied res1 = filesCopied res + copies_made new
        \<and> length (errors res1) = length (errors res) + listing_failures new
        \<and> (\<forall>e\<in>set (errors res1). e \<in> set (errors res) \<or> is_batch_error e)
        \<and> creates_made new = 0 \<and> (\<forall>nm p r. (CreateFolder nm p, r) \<notin> set new)
        \<and> foldersCreated res1 = foldersCreated res \<and> createdFolders res1 = createdFolders res
        \<and> (\<forall>err. x = Inl err \<longrightarrow> err = timeout_message \<and> tripped startTime w1)"
proof (induction folders arbitrary: res w)
  case Nil
  then show ?case
    by (intro exI[of _ "[]"]) (auto simp: copies_made_simps listing_failures_simps creates_made_simps)
next
  case (Cons folder rest)
  obtain r wc where c: "checkTimeout startTime w = (r, wc)" by (cases "checkTimeout startTime w")
  note k = checkTimeout_effect[OF c]
  show ?case
  proof (cases r)
    case (Inl err)
    with Cons.prems c have "w1 = wc" "res1 = res" "x = Inl err" by simp_all
    with k Inl show ?thesis
      by (intro exI[of _ "[]"]) (auto simp: copies_made_simps listing_failures_simps creates_made_simps)
  next
    case (Inr u)
    with Cons.prems c obtain tp resa wa where
      cp: "copyFilesOptimized fuel cfg (Some (fr_sourceId folder)) (fr_destId folder) (res, wc)
             = Some (tp, resa, wa)"
      and rec: "copy_subfolders fuel cfg startTime rest (resa, wa) = Some (x, res1, w1)"
      by (auto split: option.splits)
    from copyFilesOptimized_effect[OF cp] obtain new1 where
      n1: "events wa = new1 @ events wc"
          "\<forall>ev\<in>set new1. cfo_event (Some (fr_sourceId folder)) (fr_destId folder) ev"
          "filesCopied resa = filesCopied res + copies_made new1"
          "length (errors resa) = length (errors res) + listing_failures new1"
          "foldersCreated resa = foldersCreated res" "createdFolders resa = createdFolders res"
          "\<forall>e\<in>set (errors resa). e \<in> set (errors res) \<or> is_batch_error e"
      by blast
    from Cons.IH[OF rec] obtain new2 where
      n2: "events w1 = new2 @ events wa"
          "filesCopied res1 = filesCopied resa + copies_made new2"
          "length (errors res1) = length (errors resa) + listing_failures new2"
          "creates_made new2 = 0" "\<forall>nm p r. (CreateFolder nm p, r) \<notin> set new2"
          "foldersCreated res1 = foldersCreated resa" "createdFolders res1 = createdFolders resa"
          "\<forall>err. x = Inl err \<longrightarrow> err = timeout_message \<and> tripped startTime w1"
          "\<forall>e\<in>set (errors res1). e \<in> set (errors resa) \<or> is_batch_error e"
      by blast
    have er: "\<forall>e\<in>set (errors res1). e \<in> set (errors res) \<or> is_batch_error e"
      using n1(7) n2(9) by blast
    note z1 = cfo_events_creates[OF n1(2)]
    have nc: "\<forall>nm p r. (CreateFolder nm p, r) \<notin> set (new2 @ new1)"
      using z1 n2(5) by simp
    show ?thesis
      using n1(1,3,4,5,6) n2(1,2,3,4,6,7,8) k er nc z1
      by (intro exI[of _ "new2 @ new1"])
         (simp add: copies_made_simps listing_failures_simps creates_made_simps)
  qed
qed

lemma run_try_tally:
  assumes "run_try fuel cfg startTime (res, w) = Some (x, res1, w1)"
    and "foldersCreated res = 0" and "createdFolders res = []"
  shows "\<exists>new. events w1 = new @ events w
        \<and> filesCopied res1 = filesCopied res + copies_made new
        \<and> length (errors res1) = length (errors res) + listing_failures new
        \<and> (\<forall>e\<in>set (errors res1). e \<in> set (errors res) \<or> is_batch_error e)
        \<and> creates_made new \<le> foldersCreated res1
        \<and> foldersCreated res1 = length (createdFolders res1)
        \<and> (\<forall>cf\<in>set (createdFolders res1). record_origin new (cf_name cf) (cf_id cf))
        \<and> (\<forall>nm p i. (CreateFolder nm p, Made i) \<in> set new
              \<longrightarrow> (\<exists>cf\<in>set (createdFolders res1). cf_name cf = nm \<and> cf_id cf = i))
        \<and> (\<forall>err. x = Inl err \<longrightarrow> err = timeout_message \<and> tripped startTime w1)"
proof -
  obtain r0 w0 where c0: "checkTimeout startTime w = (r0, w0)" by (cases "checkTimeout startTime w")
  note k0 = checkTimeout_effect[OF c0]
  show ?thesis
  proof (cases r0)
    case (Inl err)
    with assms(1) c0 have "w1 = w0" "res1 = res" "x = Inl err"
      by (simp_all add: run_try_def split: if_splits)
    with k0 Inl assms(2,3) show ?thesis
      by (intro exI[of _ "[]"]) (auto simp: copies_made_simps listing_failures_simps creates_made_simps)
  next
    case (Inr u)
    show ?thesis
    proof (cases "preserveStructure cfg \<and> truthy (sourceFolderId cfg)")
      case False
      with assms(1) c0 Inr obtain tp where
        cp: "copyFilesOptimized fuel cfg (sourceFolderId cfg) (destinationFolderId cfg) (res, w0)
           = Some (tp, res1, w1)" and x: "x = Inr ()"
        by (auto simp: run_try_def split: option.splits)
      from copyFilesOptimized_effect[OF cp] obtain new1 where
        n1: "events w1 = new1 @ events w0"
            "\<forall>ev\<in>set new1. cfo_event (sourceFolderId cfg) (destinationFolderId cfg) ev"
            "filesCopied res1 = filesCopied res + copies_made new1"
            "length (errors res1) = length (errors res) + listing_failures new1"
            "foldersCreated res1 = foldersCreated res" "createdFolders res1 = createdFolders res"
            "\<forall>e\<in>set (errors res1). e \<in> set (errors res) \<or> is_batch_error e"
        by blast
      show ?thesis
        using n1 k0 x assms(2,3) cfo_events_creates[OF n1(2)]
        by (intro exI[of _ new1]) simp
    next
      case True
      let ?cf = "\<lambda>f. \<lparr>cf_name = fr_name f, cf_id = fr_destId f, cf_path = fr_path f\<rparr>"
      let ?mk = "\<lambda>folders. res\<lparr>foldersCreated := length folders,
                   createdFolders := map (\<lambda>f. \<lparr>cf_name = fr_name f, cf_id = fr_destId f,
                                                cf_path = fr_path f\<rparr>) folders\<rparr>"
      from assms(1) c0 Inr True obtain folders cache w2 where
        cf: "createFolderStructureOptimized fuel cfg (sourceFolderId cfg) (destinationFolderId cfg) []
               ([], w0) = Some (folders, cache, w2)"
        and rest1: "(case checkTimeout startTime w2 of
                      (Inl err, w3) \<Rightarrow> Some (Inl err, ?mk folders, w3)
                    | (Inr u, w3) \<Rightarrow>
                       (case copyFilesOptimized fuel cfg (sourceFolderId cfg)
                               (destinationFolderId cfg) (?mk folders, w3) of
                          None \<Rightarrow> None
                        | Some (totalProcessed, res2, w4) \<Rightarrow>
                           (case checkTimeout startTime w4 of
                              (Inl err, w5) \<Rightarrow> Some (Inl err, res2, w5)
                            | (Inr u, w5) \<Rightarrow>
                                copy_subfolders fuel cfg startTime folders (res2, w5))))
                    = Some (x, res1, w1)"
        by (auto simp: run_try_def Let_def split: option.splits)
      from createFolderStructureOptimized_counts[OF cf] obtain newf where
        nf: "events w2 = newf @ events w0" "copies_made newf = 0" "listing_failures newf = 0"
            "creates_made newf \<le> length folders"
            "\<forall>f\<in>set folders. record_origin newf (fr_name f) (fr_destId f)"
            "\<forall>nm p i. (CreateFolder nm p, Made i) \<in> set newf
                  \<longrightarrow> (\<exists>f\<in>set folders. fr_name f = nm \<and> fr_destId f = i)"
        by blast
      have oc: "\<forall>cf\<in>set (map ?cf folders). record_origin (more @ newf) (cf_name cf) (cf_id cf)"
        for more
      proof
        fix cf assume "cf \<in> set (map ?cf folders)"
        then obtain f where f: "f \<in> set folders" "cf = ?cf f" by auto
        with nf(5) have "record_origin newf (cf_name cf) (cf_id cf)" by simp
        then show "record_origin (more @ newf) (cf_name cf) (cf_id cf)"
          by (rule record_origin_mono) auto
      qed
      have kc: "\<forall>nm p i. (CreateFolder nm p, Made i) \<in> set (more @ newf)
                  \<longrightarrow> (\<exists>cf\<in>set (map ?cf folders). cf_name cf = nm \<and> cf_id cf = i)"
        if "\<forall>nm p r. (CreateFolder nm p, r) \<notin> set more" for more
      proof (intro allI impI)
        fix nm p i assume "(CreateFolder nm p, Made i) \<in> set (more @ newf)"
        with that have "(CreateFolder nm p, Made i) \<in> set newf" by simp
        with nf(6) obtain f where "f \<in> set folders" "fr_name f = nm \<and> fr_destId f = i" by blast
        then have "?cf f \<in> set (map ?cf folders) \<and> cf_name (?cf f) = nm \<and> cf_id (?cf f) = i"
          by (simp add: image_iff) blast
        then show "\<exists>cf\<in>set (map ?cf folders). cf_name cf = nm \<and> cf_id cf = i" by blast
      qed
      obtain r3 w3 where c3: "checkTimeout startTime w2 = (r3, w3)" by (cases "checkTimeout startTime w2")
      note k3 = checkTimeout_effect[OF c3]
      show ?thesis
      proof (cases r3)
        case (Inl err)
        with rest1 c3 have "w1 = w3" "res1 = ?mk folders" "x = Inl err" by simp_all
        with k0 k3 nf(1,2,3,4) Inl oc[of "[]"] kc[of "[]"] show ?thesis
          by (intro exI[of _ newf]) simp
      next
        case (Inr u3)
        with rest1 c3 obtain tp res2 w4 where
          cp: "copyFilesOptimized fuel cfg (sourceFolderId cfg) (destinationFolderId cfg)
                 (?mk folders, w3) = Some (tp, res2, w4)"
          and rest2: "(case checkTimeout startTime w4 of
                              (Inl err, w5) \<Rightarrow> Some (Inl err, res2, w5)
                            | (Inr u, w5) \<Rightarrow>
                                copy_subfolders fuel cfg startTime folders (res2, w5))
                       = Some (x, res1, w1)"
          by (auto split: option.splits)
        from copyFilesOptimized_effect[OF cp] obtain new1 where
          n1: "events w4 = new1 @ events w3"
              "\<forall>ev\<in>set new1. cfo_event (sourceFolderId cfg) (destinationFolderId cfg) ev"
              "filesCopied res2 = filesCopied (?mk folders) + copies_made new1"
              "length (errors res2) = length (errors (?mk folders)) + listing_failures new1"
              "foldersCreated res2 = foldersCreated (?mk folders)"
              "createdFolders res2 = createdFolders (?mk folders)"
              "\<forall>e\<in>set (errors res2). e \<in> set (errors (?mk folders)) \<or> is_batch_error e"
          by blast
        note z1 = cfo_events_creates[OF n1(2)]
        obtain r5 w5 where c5: "checkTimeout startTime w4 = (r5, w5)" by (cases "checkTimeout startTime w4")
        note k5 = checkTimeout_effect[OF c5]
        show ?thesis
        proof (cases r5)
          case (Inl err)
          with rest2 c5 have "w1 = w5" "res1 = res2" "x = Inl err" by simp_all
          with k0 k3 k5 nf(1,2,3,4) n1(1,3,4,5,6,7) z1 Inl oc[of new1] kc[of new1] show ?thesis
            by (intro exI[of _ "new1 @ newf"])
               (simp add: copies_made_simps listing_failures_simps creates_made_simps)
        next
          case (Inr u5)
          with rest2 c5 have "copy_subfolders fuel cfg startTime folders (res2, w5) = Some (x, res1, w1)"
            by simp
          from copy_subfolders_tally[OF this] obtain new2 where
            n2: "events w1 = new2 @ events w5"
                "filesCopied res1 = filesCopied res2 + copies_made new2"
                "length (errors res1) = length (errors res2) + listing_failures new2"
                "creates_made new2 = 0" "\<forall>nm p r. (CreateFolder nm p, r) \<notin> set new2"
                "foldersCreated res1 = foldersCreated res2" "createdFolders res1 = createdFolders res2"
                "\<forall>err. x = Inl err \<longrightarrow> err = timeout_message \<and> tripped startTime w1"
                "\<forall>e\<in>set (errors res1). e \<in> set (errors res2) \<or> is_batch_error e"
            by blast
          have er: "\<forall>e\<in>set (errors res1). e \<in> set (errors res) \<or> is_batch_error e"
            using n1(7) n2(9) by auto
          have nc: "\<forall>nm p r. (CreateFolder nm p, r) \<notin> set (new2 @ new1)"
            using z1 n2(5) by simp
          show ?thesis
            using k0 k3 k5 nf(1,2,3,4) n1(1,3,4,5,6) z1 n2(1,2,3,4,6,7,8) er
              oc[of "new2 @ new1"] kc[OF nc]
            by (intro exI[of _ "new2 @ new1 @ newf"])
               (simp add: copies_made_simps listing_failures_simps creates_made_simps)
        qed
      qed
    qed
  qed
qed


text \<open>
  C5, as stated, fails. The claim is that the result of a run cut by the deadline retains
  the lists of the accumulator, and a count of the folders created. The failure object
  carries three counts and no list: two runs that copied files of different names before
  the deadline return the same object. And \<^verbatim>\<open>foldersCreated\<close> is the number of folder records,
  which counts a folder that was found in the destination and reused: in the last run the
  store makes no folder, and the count is 1.
\<close>

theorem run_timeout_drops_lists:
  "map_option fst (run 1 (ex_config (Some ''S'') ''rename'') (ex_late ''a''))
     = map_option fst (run 1 (ex_config (Some ''S'') ''rename'') (ex_late ''b''))
   \<and> map_option fst (run 1 (ex_config (Some ''S'') ''rename'') (ex_late ''a''))
     = Some (Failure timeout_message
               \<lparr>p_foldersCreated = 0, p_filesCopied = 1, p_errorsCount = 0\<rparr> 300 300000)
   \<and> map_option (\<lambda>(out, res, w). copiedFiles res) (run 1 (ex_config (Some ''S'') ''rename'') (ex_late ''a''))
     \<noteq> map_option (\<lambda>(out, res, w). copiedFiles res) (run 1 (ex_config (Some ''S'') ''rename'') (ex_late ''b''))
   \<and> map_option (\<lambda>(out, res, w). (out, filter is_create (events w)))
       (run 2 (ex_config (Some ''S'') ''rename'') ex_reused)
     = Some (Failure timeout_message
               \<lparr>p_foldersCreated = 1, p_filesCopied = 0, p_errorsCount = 0\<rparr> 300 300000, [])"
  by code_simp

text \<open>
  C5, amended. When the \<^verbatim>\<open>try\<close> block of \<^verbatim>\<open>run\<close> ends on a thrown error, the error is the
  timeout, thrown by a check whose reading of the clock (the last one) was more than
  \<^verbatim>\<open>timeoutMs\<close> after the start. \<^verbatim>\<open>run\<close> then returns the failure object (\<^verbatim>\<open>success: false\<close>)
  with the three counts of the accumulator, and sends no call after the check. The counts
  are the work that the log holds up to the check. \<^verbatim>\<open>filesCopied\<close> is the number of copies
  the store made. The errors hold exactly one \<^verbatim>\<open>batch_processing_error\<close> for each listing
  of candidates the store rejected, and they are no more than the rejected listings,
  copies and deletions together (which failures of single copies are recorded is the
  matter of C6). \<^verbatim>\<open>foldersCreated\<close> is the number of folder records: every folder the store
  made has its record, and every record is that of a folder the store made or of a folder
  that a listing of folders returned, which was reused.
\<close>

theorem run_timeout_partial:
  assumes "run_try fuel cfg (fst (date_now w)) (initial_results, snd (date_now w))
             = Some (Inl err, res, w1)"
  shows "err = timeout_message
       \<and> 0 < ticks w1 \<and> timeoutMs < clock w1 (ticks w1 - 1) - clock w (ticks w)
       \<and> (\<exists>new. events w1 = new @ events w
             \<and> filesCopied res = copies_made new
             \<and> length (filter is_batch_error (errors res)) = listing_failures new
             \<and> length (errors res) \<le> listing_failures new + call_failures new
             \<and> foldersCreated res = length (createdFolders res)
             \<and> creates_made new \<le> foldersCreated res
             \<and> (\<forall>cf\<in>set (createdFolders res). record_origin new (cf_name cf) (cf_id cf))
             \<and> (\<forall>nm p i. (CreateFolder nm p, Made i) \<in> set new
                   \<longrightarrow> (\<exists>cf\<in>set (createdFolders res). cf_name cf = nm \<and> cf_id cf = i)))
       \<and> (\<exists>w2. run fuel cfg w =
                  Some (Failure err
                          \<lparr>p_foldersCreated = foldersCreated res,
                           p_filesCopied = filesCopied res,
                           p_errorsCount = length (errors res)\<rparr>
                          (duration_seconds (clock w1 (ticks w1)) (clock w (ticks w)))
                          (clock w1 (Suc (ticks w1))), res, w2)
                \<and> events w2 = events w1 \<and> drive w2 = drive w1)"
proof -
  have i: "foldersCreated initial_results = 0" "createdFolders initial_results = []"
          "filesCopied initial_results = 0" "errors initial_results = []"
    by (simp_all add: initial_results_def)
  from run_try_tally[OF assms i(1,2)] obtain new where
    n: "events w1 = new @ events (snd (date_now w))"
       "filesCopied res = filesCopied initial_results + copies_made new"
       "length (errors res) = length (errors initial_results) + listing_failures new"
       "\<forall>e\<in>set (errors res). e \<in> set (errors initial_results) \<or> is_batch_error e"
       "creates_made new \<le> foldersCreated res"
       "foldersCreated res = length (createdFolders res)"
       "\<forall>cf\<in>set (createdFolders res). record_origin new (cf_name cf) (cf_id cf)"
       "\<forall>nm p i. (CreateFolder nm p, Made i) \<in> set new
              \<longrightarrow> (\<exists>cf\<in>set (createdFolders res). cf_name cf = nm \<and> cf_id cf = i)"
       "err = timeout_message \<and> tripped (fst (date_now w)) w1"
    by blast
  have b: "filter is_batch_error (errors res) = errors res"
    using n(4) i(4) by (simp add: filter_id_conv)
  have t: "0 < ticks w1 \<and> timeoutMs < clock w1 (ticks w1 - 1) - clock w (ticks w)"
    using n(9) by (simp add: tripped_def date_now_def)
  have l: "\<exists>new. events w1 = new @ events w
             \<and> filesCopied res = copies_made new
             \<and> length (filter is_batch_error (errors res)) = listing_failures new
             \<and> length (errors res) \<le> listing_failures new + call_failures new
             \<and> foldersCreated res = length (createdFolders res)
             \<and> creates_made new \<le> foldersCreated res
             \<and> (\<forall>cf\<in>set (createdFolders res). record_origin new (cf_name cf) (cf_id cf))
             \<and> (\<forall>nm p i. (CreateFolder nm p, Made i) \<in> set new
                   \<longrightarrow> (\<exists>cf\<in>set (createdFolders res). cf_name cf = nm \<and> cf_id cf = i))"
    using n(1,2,3,5,6,7,8) i(3,4) b by (intro exI[of _ new]) (simp add: date_now_def)
  have r: "\<exists>w2. run fuel cfg w =
                  Some (Failure err
                          \<lparr>p_foldersCreated = foldersCreated res,
                           p_filesCopied = filesCopied res,
                           p_errorsCount = length (errors res)\<rparr>
                          (duration_seconds (clock w1 (ticks w1)) (clock w (ticks w)))
                          (clock w1 (Suc (ticks w1))), res, w2)
                \<and> events w2 = events w1 \<and> drive w2 = drive w1"
    using assms unfolding run_def by (simp add: date_now_def split: prod.splits)
  from n(9) t l r show ?thesis by blast
qed

lemma ex_late_trips:
  "(case run_try 1 (ex_config (Some ''S'') ''rename'') (fst (date_now (ex_late ''a'')))
           (initial_results, snd (date_now (ex_late ''a''))) of
      Some (Inl err, res, w1) \<Rightarrow>
        filesCopied res = 1 \<and> filter is_copy (events w1) = [(CopyFile ''a'' ''a'' ''D'', Made ''new0'')]
    | _ \<Rightarrow> False)"
  by code_simp

theorem run_timeout_partial_witness:
  "(case run_try 1 (ex_config (Some ''S'') ''rename'') (fst (date_now (ex_late ''a'')))
           (initial_results, snd (date_now (ex_late ''a''))) of
      Some (Inl err, res, w1) \<Rightarrow>
        err = timeout_message \<and> filesCopied res = 1
        \<and> filter is_copy (events w1) = [(CopyFile ''a'' ''a'' ''D'', Made ''new0'')]
        \<and> map_option fst (run 1 (ex_config (Some ''S'') ''rename'') (ex_late ''a''))
            = Some (Failure err
                      \<lparr>p_foldersCreated = foldersCreated res, p_filesCopied = filesCopied res,
                       p_errorsCount = length (errors res)\<rparr>
                      (duration_seconds (clock w1 (ticks w1))
                         (clock (ex_late ''a'') (ticks (ex_late ''a''))))
                      (clock w1 (Suc (ticks w1))))
    | _ \<Rightarrow> False)"
proof -
  let ?cfg = "ex_config (Some ''S'') ''rename''"
  let ?w = "ex_late ''a''"
  let ?r = "run_try 1 ?cfg (fst (date_now ?w)) (initial_results, snd (date_now ?w))"
  obtain x res w1 where r: "?r = Some (x, res, w1)"
    using ex_late_trips by (cases ?r) auto
  obtain err where x: "x = Inl err"
    using ex_late_trips r by (cases x) auto
  have eq: "?r = Some (Inl err, res, w1)" using r x by simp
  have fc: "filesCopied res = 1"
           "filter is_copy (events w1) = [(CopyFile ''a'' ''a'' ''D'', Made ''new0'')]"
    using ex_late_trips eq by simp_all
  from run_timeout_partial[OF eq] fc show ?thesis
    unfolding eq by auto
qed

subsection \<open>A run without a source folder\<close>







end
